theory Spec2Isabelle
  imports Main
begin

section \<open>Data model\<close>

text \<open>
  The viewer of \<^verbatim>\<open>lighthouse-treemap/app/src/main.js\<close> works on JavaScript objects: the
  nodes of the treemap data, which it reads, collects in arrays, and uses as the keys of
  a \<^verbatim>\<open>WeakMap\<close> (by object identity). The objects therefore live in an explicit store: a
  list of node objects, an object's reference being its position. A new object is put
  at the end of the store, so its reference is the length of the store before.
  A reference held by a live object is a reference to an object of the store; the
  theorems below say so where they need it.

  \<^verbatim>\<open>Treemap.Node\<close> has a name, \<^verbatim>\<open>resourceBytes\<close> (a number), an optional
  \<^verbatim>\<open>unusedBytes\<close> and an optional array of children. An absent property reads as
  \<^verbatim>\<open>undefined\<close>, which is \<open>None\<close>. An array is an object and is truthy even when
  empty, so \<^verbatim>\<open>node.children\<close> is truthy exactly when the property is there:
  \<open>Some []\<close> is a node that has the property with no element in it.
\<close>

subsection \<open>Numbers\<close>

text \<open>
  A JavaScript number is an IEEE 754 double. The byte counts of the data model are
  integers, so the numbers here are the doubles whose value is an integer, the two
  infinities and \<^verbatim>\<open>NaN\<close>; \<open>Num n\<close> is the double of value \<open>n\<close>. Every integer up to
  \<open>2\<^sup>5\<^sup>3 = 9007199254740992\<close> in absolute value is a double; beyond that a double has
  53 significant bits, so it is a multiple of a power of two.

  \<open>roundDouble n\<close> is the double nearest to the integer \<open>n\<close>, the one with the even
  significand when two are equally near (the rounding of IEEE 754 arithmetic), and an
  infinity from \<open>2\<^sup>1\<^sup>0\<^sup>2\<^sup>4 - 2\<^sup>9\<^sup>7\<^sup>0\<close> on. \<open>doubleExponent m\<close> is the number of
  low bits that a double of the size of \<open>m\<close> does not have. The sum of two doubles is
  the rounded exact sum. The two zeros are one number here: the viewer adds numbers and
  tests them for truthiness, and neither tells \<^verbatim>\<open>-0\<close> from \<^verbatim>\<open>0\<close>.
\<close>

datatype number = Num int | Infinity | NegInfinity | NaN

function doubleExponent :: "int \<Rightarrow> nat" where
  "doubleExponent m = (if m < 9007199254740992 then 0 else Suc (doubleExponent (m div 2)))"
  by pat_completeness auto
termination
  by (relation "measure nat") auto

declare doubleExponent.simps [simp del]

definition roundDouble :: "int \<Rightarrow> number" where
  "roundDouble n =
     (if \<bar>n\<bar> \<le> 9007199254740992 then Num n
      else (let e = doubleExponent \<bar>n\<bar>;
                q = \<bar>n\<bar> div 2 ^ e;
                r = \<bar>n\<bar> mod 2 ^ e;
                rounded = (if 2 ^ e < 2 * r \<or> (2 * r = 2 ^ e \<and> odd q) then q + 1 else q) * 2 ^ e
            in if 2 ^ 1024 \<le> rounded then (if n < 0 then NegInfinity else Infinity)
               else Num (if n < 0 then - rounded else rounded)))"

text \<open>The operator \<^verbatim>\<open>+\<close> on two numbers.\<close>

fun jsAdd :: "number \<Rightarrow> number \<Rightarrow> number" where
  "jsAdd (Num a) (Num b) = roundDouble (a + b)"
| "jsAdd NaN y = NaN"
| "jsAdd x NaN = NaN"
| "jsAdd Infinity NegInfinity = NaN"
| "jsAdd NegInfinity Infinity = NaN"
| "jsAdd Infinity y = Infinity"
| "jsAdd x Infinity = Infinity"
| "jsAdd NegInfinity y = NegInfinity"
| "jsAdd x NegInfinity = NegInfinity"

subsection \<open>Objects\<close>

type_synonym addr = nat

record node =
  name :: string
  resourceBytes :: number
  unusedBytes :: "number option"
  children :: "addr list option"

type_synonym heap = "node list"

text \<open>\<^verbatim>\<open>Treemap.RootNodeContainer\<close>: \<^verbatim>\<open>{name, node}\<close>.\<close>

record rootNodeContainer =
  rootNode_name :: string
  rootNode_node :: addr

datatype error = Error string | TypeError | RangeError

text \<open>
  The state of \<^verbatim>\<open>Util.stableHasher\<close>'s closure (see the section on colours): the palette
  and the table of the keys that have an index.
\<close>

record 'a hasher =
  items :: "'a list"
  assignedItems :: "(string \<times> nat) list"

text \<open>The fields of a \<^verbatim>\<open>TreemapViewer\<close> that are data (\<^verbatim>\<open>el\<close> is a DOM element).\<close>

record viewer =
  nodeToRootNodeMap :: "addr \<Rightarrow> rootNodeContainer option"
  rootNodesByGroup :: "(string \<times> rootNodeContainer list) list"
  currentRootNode :: "addr option"
  documentUrl :: string
  getHue :: "int hasher"

section \<open>createRootNodeForGroup\<close>

text \<open>
  The callback of \<^verbatim>\<open>rootNodes.map\<close> (main.js, lines 106 to 119): a root node that has
  children is wrapped in a new object that carries the container's name; any other one
  is returned as it is. The result is the store after the call and the reference the
  callback returns.
\<close>

definition wrapRootNode :: "string \<Rightarrow> heap \<Rightarrow> rootNodeContainer \<Rightarrow> heap \<times> addr" where
  "wrapRootNode grp h rootNode =
     (if grp = ''scripts'' \<and> children (h ! rootNode_node rootNode) \<noteq> None
      then (h @ [\<lparr>name = rootNode_name rootNode,
                   resourceBytes = resourceBytes (h ! rootNode_node rootNode),
                   unusedBytes = unusedBytes (h ! rootNode_node rootNode),
                   children = Some [rootNode_node rootNode]\<rparr>],
            length h)
      else (h, rootNode_node rootNode))"

fun mapRootNodes :: "string \<Rightarrow> heap \<Rightarrow> rootNodeContainer list \<Rightarrow> heap \<times> addr list" where
  "mapRootNodes grp h [] = (h, [])"
| "mapRootNodes grp h (rootNode # rest) =
     (case wrapRootNode grp h rootNode of
        (h1, child) \<Rightarrow>
          (case mapRootNodes grp h1 rest of
             (h2, others) \<Rightarrow> (h2, child # others)))"

text \<open>\<^verbatim>\<open>cur.unusedBytes || 0\<close>: \<^verbatim>\<open>undefined\<close>, \<open>0\<close> and \<^verbatim>\<open>NaN\<close> are falsy.\<close>

definition unusedOrZero :: "node \<Rightarrow> number" where
  "unusedOrZero cur =
     (case unusedBytes cur of
        None \<Rightarrow> Num 0
      | Some u \<Rightarrow> if u = Num 0 \<or> u = NaN then Num 0 else u)"

text \<open>
  \<^verbatim>\<open>createRootNodeForGroup(group)\<close> (lines 103 to 127). \<^verbatim>\<open>this.rootNodesByGroup[group]\<close>
  is \<^verbatim>\<open>undefined\<close> for a group the object does not have, and \<^verbatim>\<open>undefined.map\<close> throws a
  \<^verbatim>\<open>TypeError\<close>. The two \<^verbatim>\<open>reduce\<close> calls run from the left with the accumulator
  \<open>0\<close>, each step an addition of doubles. The new root is the last object of the new
  store.
\<close>

definition createRootNodeForGroup :: "viewer \<Rightarrow> string \<Rightarrow> heap \<Rightarrow> error + (heap \<times> addr)" where
  "createRootNodeForGroup this grp h =
     (case map_of (rootNodesByGroup this) grp of
        None \<Rightarrow> Inl TypeError
      | Some rootNodes \<Rightarrow>
          (case mapRootNodes grp h rootNodes of
             (h1, childs) \<Rightarrow>
               Inr (h1 @ [\<lparr>name = documentUrl this,
                            resourceBytes =
                              foldl (\<lambda>acc cur. jsAdd (resourceBytes (h1 ! cur)) acc)
                                (Num 0) childs,
                            unusedBytes =
                              Some (foldl (\<lambda>acc cur. jsAdd (unusedOrZero (h1 ! cur)) acc)
                                      (Num 0) childs),
                            children = Some childs\<rparr>],
                    length h1)))"

section \<open>Walking a tree\<close>

text \<open>
  Modelled from the spec: \<^verbatim>\<open>Util.dfs(node, fn)\<close> of \<^verbatim>\<open>util.js\<close>, which is not among the
  sources. The spec calls it a depth-first pass over the node tree: \<^verbatim>\<open>fn\<close> is called on a
  node, then the walk goes through the node's children in their order. The model gives
  the nodes in the order \<^verbatim>\<open>fn\<close> is called on them. \<open>fuel\<close> bounds the depth of the
  nested calls: the result is \<open>None\<close> when the walk needs more (a JavaScript engine
  gives up with a \<^verbatim>\<open>RangeError\<close> on a structure that is too deep; a cyclic one is too deep
  for every bound). No callback of main.js changes a \<^verbatim>\<open>children\<close> array, so the walk is
  fixed by the store it starts in, and a caller runs its callback over the list.
\<close>

fun dfs_nodes :: "nat \<Rightarrow> heap \<Rightarrow> addr list \<Rightarrow> addr list option" where
  "dfs_nodes fuel h [] = Some []"
| "dfs_nodes 0 h (node # rest) = None"
| "dfs_nodes (Suc fuel) h (node # rest) =
     (case (case children (h ! node) of None \<Rightarrow> Some [] | Some cs \<Rightarrow> dfs_nodes fuel h cs) of
        None \<Rightarrow> None
      | Some below \<Rightarrow>
          (case dfs_nodes (Suc fuel) h rest of
             None \<Rightarrow> None
           | Some after \<Rightarrow> Some (node # below @ after)))"

text \<open>
  Modelled from the spec: the call \<^verbatim>\<open>Util.dfs(node, fn)\<close> itself, the walk from one node.
\<close>

definition dfs :: "nat \<Rightarrow> heap \<Rightarrow> addr \<Rightarrow> addr list option" where
  "dfs fuel h node = dfs_nodes fuel h [node]"

section \<open>The constructor\<close>

text \<open>
  \<^verbatim>\<open>Treemap.Options\<close> is \<^verbatim>\<open>{lhr: LH.Result}\<close>; of the result the viewer reads \<^verbatim>\<open>audits\<close>
  (a record from audit ids to audit results) and \<^verbatim>\<open>requestedUrl\<close>. The details of an
  audit result are optional; the treemap data in them is an array of root node
  containers when it is there. The message handler below tests \<^verbatim>\<open>lhr\<close> itself, so it is
  optional here.
\<close>

record debugData =
  treemapData :: "rootNodeContainer list option"

record auditResult =
  details :: "debugData option"

record lhResult =
  audits :: "(string \<times> auditResult) list"
  requestedUrl :: string

record options =
  lhr :: "lhResult option"

text \<open>
  Lines 21 to 28. Reading a property of \<^verbatim>\<open>undefined\<close> throws a \<^verbatim>\<open>TypeError\<close>: that is
  what \<^verbatim>\<open>options.lhr.audits\<close> does without \<^verbatim>\<open>lhr\<close>, and
  \<^verbatim>\<open>audits['script-treemap-data'].details\<close> without that audit. An object and an array
  are truthy, so the two tests of line 23 are tests that the value is there.
\<close>

definition scriptRootNodes :: "options \<Rightarrow> error + rootNodeContainer list" where
  "scriptRootNodes opts =
     (case lhr opts of
        None \<Rightarrow> Inl TypeError
      | Some result \<Rightarrow>
          (case map_of (audits result) ''script-treemap-data'' of
             None \<Rightarrow> Inl TypeError
           | Some audit \<Rightarrow>
               (case details audit of
                  None \<Rightarrow> Inl (Error ''missing script-treemap-data'')
                | Some treemapDebugData \<Rightarrow>
                    (case treemapData treemapDebugData of
                       None \<Rightarrow> Inl (Error ''missing script-treemap-data'')
                     | Some roots \<Rightarrow> Inr roots))))"

text \<open>
  Lines 38 to 42: every node of every root node's tree is entered in the \<^verbatim>\<open>WeakMap\<close>
  under its own identity; a later \<^verbatim>\<open>set\<close> of the same key replaces the earlier one.
\<close>

fun registerRootNodes ::
  "nat \<Rightarrow> heap \<Rightarrow> (addr \<Rightarrow> rootNodeContainer option) \<Rightarrow> rootNodeContainer list \<Rightarrow>
     (addr \<Rightarrow> rootNodeContainer option) option" where
  "registerRootNodes fuel h m [] = Some m"
| "registerRootNodes fuel h m (rootNode # rest) =
     (case dfs fuel h (rootNode_node rootNode) of
        None \<Rightarrow> None
      | Some nodes \<Rightarrow>
          registerRootNodes fuel h (foldl (\<lambda>m' node. m'(node \<mapsto> rootNode)) m nodes) rest)"

fun registerGroups ::
  "nat \<Rightarrow> heap \<Rightarrow> (addr \<Rightarrow> rootNodeContainer option) \<Rightarrow> rootNodeContainer list list \<Rightarrow>
     (addr \<Rightarrow> rootNodeContainer option) option" where
  "registerGroups fuel h m [] = Some m"
| "registerGroups fuel h m (rootNodes # rest) =
     (case registerRootNodes fuel h m rootNodes of
        None \<Rightarrow> None
      | Some m' \<Rightarrow> registerGroups fuel h m' rest)"

text \<open>
  Modelled from the spec: \<^verbatim>\<open>Util.stableHasher(items)\<close> of \<^verbatim>\<open>util.js\<close>, which is not among
  the sources. By the spec the hasher maintains a mapping from key to an index into a
  fixed palette, the indices assigned in first-seen order; once the palette is
  exhausted, an unseen key gets no colour; and the same key always maps to the same
  hue. A new hasher has the palette and an empty mapping.
\<close>

definition stableHasher :: "'a list \<Rightarrow> 'a hasher" where
  "stableHasher originalItems = \<lparr>items = originalItems, assignedItems = []\<rparr>"

text \<open>
  Modelled from the spec: the function that \<^verbatim>\<open>Util.stableHasher\<close> returns (the viewer's
  \<^verbatim>\<open>getHue\<close>), with the state of the closure passed in and out. A key that has an index
  gets the palette's entry there; a new key gets the next index, which is the number
  of keys that have one, while the palette has an entry there; after that a new key
  gets \<^verbatim>\<open>undefined\<close> and the mapping stays as it is.
\<close>

definition callHasher :: "'a hasher \<Rightarrow> string \<Rightarrow> 'a option \<times> 'a hasher" where
  "callHasher s key =
     (case map_of (assignedItems s) key of
        Some i \<Rightarrow> (if i < length (items s) then Some (items s ! i) else None, s)
      | None \<Rightarrow>
          (if length (assignedItems s) < length (items s)
           then (Some (items s ! length (assignedItems s)),
                 s\<lparr>assignedItems := (key, length (assignedItems s)) # assignedItems s\<rparr>)
           else (None, s)))"

text \<open>The calls \<^verbatim>\<open>getHue(k)\<close> for the keys of a list, one after the other on one hasher.\<close>

fun callHasherAll :: "'a hasher \<Rightarrow> string list \<Rightarrow> 'a option list \<times> 'a hasher" where
  "callHasherAll s [] = ([], s)"
| "callHasherAll s (key # rest) =
     (case callHasher s key of
        (hue, s1) \<Rightarrow> (case callHasherAll s1 rest of (hues, s2) \<Rightarrow> (hue # hues, s2)))"

text \<open>
  Lines 20 to 48 of the constructor: the fields of the new viewer, or the error thrown
  (line 46 reads \<^verbatim>\<open>options.lhr.requestedUrl\<close>).
  \<open>COLOR_HUES\<close> stands for \<^verbatim>\<open>Util.COLOR_HUES\<close>, a constant of \<^verbatim>\<open>util.js\<close>. The calls
  that follow (\<^verbatim>\<open>createHeader\<close>, \<^verbatim>\<open>show\<close>, \<^verbatim>\<open>initListeners\<close>) write to the page; what
  they compute from the data is \<open>createRootNodeForGroup\<close>, \<open>renderViewModeOptions\<close>
  and \<open>updateColors\<close>.
\<close>

definition TreemapViewer :: "nat \<Rightarrow> int list \<Rightarrow> options \<Rightarrow> heap \<Rightarrow> error + viewer" where
  "TreemapViewer fuel COLOR_HUES opts h =
     (case scriptRootNodes opts of
        Inl e \<Rightarrow> Inl e
      | Inr roots \<Rightarrow>
          (case registerGroups fuel h (\<lambda>node. None) (map snd [(''scripts'', roots)]) of
             None \<Rightarrow> Inl RangeError
           | Some m \<Rightarrow>
               (case lhr opts of
                  None \<Rightarrow> Inl TypeError
                | Some result \<Rightarrow>
                    Inr \<lparr>nodeToRootNodeMap = m,
                         rootNodesByGroup = [(''scripts'', roots)],
                         currentRootNode = None,
                         documentUrl = requestedUrl result,
                         getHue = stableHasher COLOR_HUES\<rparr>)))"

section \<open>renderViewModeOptions\<close>




section \<open>updateColors\<close>

text \<open>
  Lines 186 to 210, the callback: the key is the name of the container the node is
  entered under, and the node's own name when it is not in the \<^verbatim>\<open>WeakMap\<close>; the colours
  are white and black unless the hasher gives a hue. \<open>hsl\<close> stands for \<^verbatim>\<open>Util.hsl\<close>;
  \<open>hasDom\<close> says which nodes carry the DOM element that webtreemap leaves on them.
  A node without one is not painted.
\<close>

definition hueKey :: "viewer \<Rightarrow> heap \<Rightarrow> addr \<Rightarrow> string" where
  "hueKey this h node =
     (case nodeToRootNodeMap this node of
        Some rootNode \<Rightarrow> rootNode_name rootNode
      | None \<Rightarrow> name (h ! node))"

definition nodeColors :: "(int \<Rightarrow> int \<Rightarrow> int \<Rightarrow> string) \<Rightarrow> int option \<Rightarrow> string \<times> string" where
  "nodeColors hsl hue =
     (case hue of
        None \<Rightarrow> (''white'', ''black'')
      | Some hu \<Rightarrow>
          (let sat = 60; lum = 90
           in (hsl hu sat lum, if lum > 50 then ''black'' else ''white'')))"

definition colorNode ::
  "(int \<Rightarrow> int \<Rightarrow> int \<Rightarrow> string) \<Rightarrow> (addr \<Rightarrow> bool) \<Rightarrow> viewer \<Rightarrow> heap \<Rightarrow> int hasher \<Rightarrow> addr \<Rightarrow>
     int hasher \<times> (string \<times> string) option" where
  "colorNode hsl hasDom this h s node =
     (case callHasher s (hueKey this h node) of
        (hue, s1) \<Rightarrow> (s1, if hasDom node then Some (nodeColors hsl hue) else None))"

fun colorNodes ::
  "(int \<Rightarrow> int \<Rightarrow> int \<Rightarrow> string) \<Rightarrow> (addr \<Rightarrow> bool) \<Rightarrow> viewer \<Rightarrow> heap \<Rightarrow> int hasher \<Rightarrow> addr list \<Rightarrow>
     int hasher \<times> (addr \<times> string \<times> string) list" where
  "colorNodes hsl hasDom this h s [] = (s, [])"
| "colorNodes hsl hasDom this h s (node # rest) =
     (case colorNode hsl hasDom this h s node of
        (s1, style) \<Rightarrow>
          (case colorNodes hsl hasDom this h s1 rest of
             (s2, painted) \<Rightarrow>
               (s2, (case style of None \<Rightarrow> painted | Some c \<Rightarrow> (node, c) # painted))))"

text \<open>
  \<^verbatim>\<open>updateColors()\<close>: the walk starts at \<^verbatim>\<open>this.currentRootNode\<close> (reading the name of
  \<^verbatim>\<open>undefined\<close> throws); the result is the viewer with the hasher as the calls leave it,
  and the nodes painted with their background colour and text colour.
\<close>

definition updateColors ::
  "nat \<Rightarrow> (int \<Rightarrow> int \<Rightarrow> int \<Rightarrow> string) \<Rightarrow> (addr \<Rightarrow> bool) \<Rightarrow> viewer \<Rightarrow> heap \<Rightarrow>
     error + (viewer \<times> (addr \<times> string \<times> string) list)" where
  "updateColors fuel hsl hasDom this h =
     (case currentRootNode this of
        None \<Rightarrow> Inl TypeError
      | Some root \<Rightarrow>
          (case dfs fuel h root of
             None \<Rightarrow> Inl RangeError
           | Some nodes \<Rightarrow>
               (case colorNodes hsl hasDom this h (getHue this) nodes of
                  (s, painted) \<Rightarrow> Inr (this\<lparr>getHue := s\<rparr>, painted))))"

section \<open>The message handler\<close>

text \<open>
  Lines 295 to 306, the listener of \<^verbatim>\<open>message\<close> events. A window is known by its
  identity; \<^verbatim>\<open>e.source\<close> and \<^verbatim>\<open>self.opener\<close> can be \<^verbatim>\<open>null\<close>. The data of a message can
  be anything: \<open>None\<close> is \<^verbatim>\<open>undefined\<close> or \<^verbatim>\<open>null\<close>, which the destructuring of line 300
  throws on; a value with no \<^verbatim>\<open>lhr\<close> in it is \<open>Some\<close> of options without \<^verbatim>\<open>lhr\<close>. The
  empty string is falsy. The result is the options \<^verbatim>\<open>init\<close> is called with, if it is
  called.
\<close>

record messageEvent =
  source :: "nat option"
  data :: "options option"

definition onMessage :: "nat option \<Rightarrow> messageEvent \<Rightarrow> error + options option" where
  "onMessage opener e =
     (if source e \<noteq> opener then Inr None
      else (case data e of
              None \<Rightarrow> Inl TypeError
            | Some opts \<Rightarrow>
                (case lhr opts of
                   None \<Rightarrow> Inr None
                 | Some result \<Rightarrow>
                     (let url = requestedUrl result
                      in if url = [] then Inr None else Inr (Some opts)))))"

section \<open>Words of the specification\<close>

text \<open>
  The audit details of the options: the details of the audit \<^verbatim>\<open>script-treemap-data\<close> of
  the options' result, when the options have a result, the result has that audit and
  the audit has details.
\<close>

definition auditDetails :: "options \<Rightarrow> debugData option" where
  "auditDetails opts =
     (case lhr opts of
        None \<Rightarrow> None
      | Some result \<Rightarrow>
          (case map_of (audits result) ''script-treemap-data'' of
             None \<Rightarrow> None
           | Some audit \<Rightarrow> details audit))"


text \<open>
  A byte count, in the words of the data model, is a non-negative integer: a number
  \<open>Num k\<close> with \<open>0 \<le> k\<close>, and \<open>k\<close> is the count.
\<close>

definition isCount :: "number \<Rightarrow> bool" where
  "isCount x = (case x of Num k \<Rightarrow> 0 \<le> k | _ \<Rightarrow> False)"

fun byteCount :: "number \<Rightarrow> int" where
  "byteCount (Num k) = k"
| "byteCount x = 0"



text \<open>
  A store is in child-first order when every child stands before its parent. Every
  finite forest can be laid out that way, and no walk in such a store is deeper than
  the store is long.
\<close>

definition childFirst :: "heap \<Rightarrow> bool" where
  "childFirst h \<longleftrightarrow>
     (\<forall>a<length h. case children (h ! a) of None \<Rightarrow> True | Some cs \<Rightarrow> \<forall>c\<in>set cs. c < a)"



section \<open>An example\<close>

text \<open>
  Three scripts of 10, 20 and 5 bytes; the second one is a bundle of two modules. The
  store holds the five nodes as the page receives them, the modules before the bundle's
  root.
\<close>

definition exampleHeap :: heap where
  "exampleHeap =
     [\<lparr>name = ''a.js'', resourceBytes = Num 10, unusedBytes = Some (Num 4), children = None\<rparr>,
      \<lparr>name = ''x.js'', resourceBytes = Num 12, unusedBytes = None, children = None\<rparr>,
      \<lparr>name = ''y.js'', resourceBytes = Num 8, unusedBytes = Some (Num 3), children = None\<rparr>,
      \<lparr>name = ''/'', resourceBytes = Num 20, unusedBytes = Some (Num 3),
         children = Some [1, 2]\<rparr>,
      \<lparr>name = ''c.js'', resourceBytes = Num 5, unusedBytes = None, children = None\<rparr>]"

definition exampleRootNodes :: "rootNodeContainer list" where
  "exampleRootNodes =
     [\<lparr>rootNode_name = ''a.js'', rootNode_node = 0\<rparr>,
      \<lparr>rootNode_name = ''bundle.js'', rootNode_node = 3\<rparr>,
      \<lparr>rootNode_name = ''c.js'', rootNode_node = 4\<rparr>]"

definition exampleOptions :: options where
  "exampleOptions =
     \<lparr>lhr = Some \<lparr>audits = [(''script-treemap-data'',
                                \<lparr>details = Some \<lparr>treemapData = Some exampleRootNodes\<rparr>\<rparr>)],
                   requestedUrl = ''https://example.com/''\<rparr>\<rparr>"

definition exampleViewer :: viewer where
  "exampleViewer =
     \<lparr>nodeToRootNodeMap =
        (\<lambda>node. None)
          (0 \<mapsto> \<lparr>rootNode_name = ''a.js'', rootNode_node = 0\<rparr>,
           3 \<mapsto> \<lparr>rootNode_name = ''bundle.js'', rootNode_node = 3\<rparr>,
           1 \<mapsto> \<lparr>rootNode_name = ''bundle.js'', rootNode_node = 3\<rparr>,
           2 \<mapsto> \<lparr>rootNode_name = ''bundle.js'', rootNode_node = 3\<rparr>,
           4 \<mapsto> \<lparr>rootNode_name = ''c.js'', rootNode_node = 4\<rparr>),
      rootNodesByGroup = [(''scripts'', exampleRootNodes)],
      currentRootNode = None,
      documentUrl = ''https://example.com/'',
      getHue = stableHasher [0, 120]\<rparr>"

text \<open>
  The store that \<open>createRootNodeForGroup\<close> leaves in the example: the wrapper of the
  bundle and the new root are the last two objects.
\<close>

definition exampleShownHeap :: heap where
  "exampleShownHeap =
     exampleHeap @
     [\<lparr>name = ''bundle.js'', resourceBytes = Num 20, unusedBytes = Some (Num 3),
         children = Some [3]\<rparr>,
      \<lparr>name = ''https://example.com/'', resourceBytes = Num 35, unusedBytes = Some (Num 7),
         children = Some [0, 5, 4]\<rparr>]"


definition exampleSortedHeap :: heap where
  "exampleSortedHeap =
     exampleHeap @
     [\<lparr>name = ''bundle.js'', resourceBytes = Num 20, unusedBytes = Some (Num 3),
         children = Some [3]\<rparr>,
      \<lparr>name = ''https://example.com/'', resourceBytes = Num 35, unusedBytes = Some (Num 7),
         children = Some [5, 0, 4]\<rparr>]"

definition exampleHsl :: "int \<Rightarrow> int \<Rightarrow> int \<Rightarrow> string" where
  "exampleHsl hue sat lum = (if hue = 0 then ''hsl(0, 60%, 90%)'' else ''hsl(120, 60%, 90%)'')"

text \<open>
  Byte counts beyond the integers that doubles count exactly: three scripts of
  \<open>2\<^sup>5\<^sup>3\<close>, 1 and 1 bytes, and a bundle that has the three as its modules, of
  \<open>2\<^sup>5\<^sup>3 + 2\<close> bytes.
\<close>

definition bigHeap :: heap where
  "bigHeap =
     [\<lparr>name = ''a.js'', resourceBytes = Num 9007199254740992, unusedBytes = None,
         children = None\<rparr>,
      \<lparr>name = ''b.js'', resourceBytes = Num 1, unusedBytes = None, children = None\<rparr>,
      \<lparr>name = ''c.js'', resourceBytes = Num 1, unusedBytes = None, children = None\<rparr>,
      \<lparr>name = ''/'', resourceBytes = Num 9007199254740994, unusedBytes = None,
         children = Some [0, 1, 2]\<rparr>]"

definition bigScripts :: "rootNodeContainer list" where
  "bigScripts =
     [\<lparr>rootNode_name = ''a.js'', rootNode_node = 0\<rparr>,
      \<lparr>rootNode_name = ''b.js'', rootNode_node = 1\<rparr>,
      \<lparr>rootNode_name = ''c.js'', rootNode_node = 2\<rparr>]"



section \<open>Properties of createRootNodeForGroup\<close>

text \<open>
  The map callback only ever adds objects at the end of the store, so an object that
  is there before the call is the same after it.
\<close>

lemma mapRootNodes_length:
  "mapRootNodes grp h cs = (h', as) \<Longrightarrow> length as = length cs"
  by (induction cs arbitrary: h h' as) (auto split: prod.splits)

lemma wrapRootNode_extends:
  "wrapRootNode grp h c = (h1, a) \<Longrightarrow> \<exists>ext. h1 = h @ ext"
  by (auto simp: wrapRootNode_def split: if_splits)

text \<open>
  An empty \<^verbatim>\<open>children\<close> array is truthy: a root node that has one is wrapped like any
  other node with the property.
\<close>

lemma wrapRootNode_empty_array:
  "children (h ! rootNode_node rootNode) = Some [] \<Longrightarrow>
     wrapRootNode ''scripts'' h rootNode =
       (h @ [\<lparr>name = rootNode_name rootNode,
                resourceBytes = resourceBytes (h ! rootNode_node rootNode),
                unusedBytes = unusedBytes (h ! rootNode_node rootNode),
                children = Some [rootNode_node rootNode]\<rparr>],
        length h)"
  by (simp add: wrapRootNode_def)

lemma mapRootNodes_extends:
  "mapRootNodes grp h cs = (h', as) \<Longrightarrow> \<exists>ext. h' = h @ ext"
proof (induction cs arbitrary: h h' as)
  case Nil
  then show ?case by simp
next
  case (Cons c cs)
  obtain h1 a where w: "wrapRootNode grp h c = (h1, a)" by (cases "wrapRootNode grp h c")
  obtain h2 bs where m: "mapRootNodes grp h1 cs = (h2, bs)" by (cases "mapRootNodes grp h1 cs")
  from w have "\<exists>e. h1 = h @ e" by (rule wrapRootNode_extends)
  moreover from Cons.IH[OF m] have "\<exists>e. h2 = h1 @ e" .
  moreover from Cons.prems w m have "h' = h2" by simp
  ultimately show ?case by auto
qed

lemma mapRootNodes_nth:
  assumes "mapRootNodes grp h cs = (h', as)"
    and "\<forall>c\<in>set cs. rootNode_node c < length h"
    and "i < length cs"
  shows "as ! i < length h' \<and>
         (if grp = ''scripts'' \<and> children (h ! rootNode_node (cs ! i)) \<noteq> None
          then length h \<le> as ! i \<and>
               h' ! (as ! i) = \<lparr>name = rootNode_name (cs ! i),
                   resourceBytes = resourceBytes (h ! rootNode_node (cs ! i)),
                   unusedBytes = unusedBytes (h ! rootNode_node (cs ! i)),
                   children = Some [rootNode_node (cs ! i)]\<rparr>
          else as ! i = rootNode_node (cs ! i))"
  using assms
proof (induction cs arbitrary: h h' as i)
  case Nil
  then show ?case by simp
next
  case (Cons c cs)
  obtain h1 a where w: "wrapRootNode grp h c = (h1, a)" by (cases "wrapRootNode grp h c")
  obtain h2 bs where m: "mapRootNodes grp h1 cs = (h2, bs)" by (cases "mapRootNodes grp h1 cs")
  from Cons.prems(1) w m have eq: "h' = h2" "as = a # bs" by simp_all
  from w obtain e1 where e1: "h1 = h @ e1" using wrapRootNode_extends by blast
  from m obtain e2 where e2: "h2 = h1 @ e2" using mapRootNodes_extends by blast
  have inr: "\<forall>c\<in>set cs. rootNode_node c < length h1" using Cons.prems(2) e1 by auto
  show ?case
  proof (cases i)
    case 0
    have "a < length h1" using w Cons.prems(2) by (auto simp: wrapRootNode_def split: if_splits)
    then show ?thesis using 0 eq w e2
      by (auto simp: wrapRootNode_def nth_append split: if_splits)
  next
    case (Suc k)
    then have k: "k < length cs" using Cons.prems(3) by simp
    have same: "h1 ! rootNode_node (cs ! k) = h ! rootNode_node (cs ! k)"
      using Cons.prems(2) k e1 by (simp add: nth_append)
    from Cons.IH[OF m inr k] show ?thesis
      using Suc eq same e1 by (auto split: if_splits)
  qed
qed

text \<open>
  Additions of byte counts are exact as long as the sum is at most \<open>2\<^sup>5\<^sup>3\<close>.
\<close>

lemma isCount_Num: "isCount x \<Longrightarrow> x = Num (byteCount x) \<and> 0 \<le> byteCount x"
  by (cases x) (simp_all add: isCount_def)

lemma jsAdd_counts:
  assumes "isCount x" and "isCount y" and "byteCount x + byteCount y \<le> 9007199254740992"
  shows "jsAdd x y = Num (byteCount x + byteCount y)"
proof -
  from assms(1,2) obtain a b where x: "x = Num a" "0 \<le> a" and y: "y = Num b" "0 \<le> b"
    using isCount_Num by blast
  with assms(3) show ?thesis by (simp add: roundDouble_def)
qed

lemma foldl_jsAdd_counts:
  assumes "\<forall>x\<in>set xs. isCount x" and "0 \<le> a"
    and "a + sum_list (map byteCount xs) \<le> 9007199254740992"
  shows "foldl (\<lambda>acc cur. jsAdd cur acc) (Num a) xs = Num (a + sum_list (map byteCount xs))"
  using assms
proof (induction xs arbitrary: a)
  case Nil
  then show ?case by simp
next
  case (Cons x xs)
  from Cons.prems(1) have x: "isCount x" by simp
  then have x0: "0 \<le> byteCount x" using isCount_Num by blast
  have rest: "0 \<le> sum_list (map byteCount xs)"
    using Cons.prems(1) isCount_Num by (intro sum_list_nonneg) auto
  have "jsAdd x (Num a) = Num (byteCount x + a)"
    using jsAdd_counts[OF x, of "Num a"] Cons.prems(2,3) rest by (simp add: isCount_def)
  moreover have "foldl (\<lambda>acc cur. jsAdd cur acc) (Num (byteCount x + a)) xs =
      Num (byteCount x + a + sum_list (map byteCount xs))"
    using Cons.prems x0 by (intro Cons.IH) simp_all
  ultimately show ?case by (simp add: add.commute add.left_commute)
qed

lemma mapRootNodes_bytes:
  assumes m: "mapRootNodes grp h cs = (h', as)"
    and r: "\<forall>c\<in>set cs. rootNode_node c < length h"
  shows "map (\<lambda>a. resourceBytes (h' ! a)) as = map (\<lambda>c. resourceBytes (h ! rootNode_node c)) cs"
    and "map (\<lambda>a. unusedBytes (h' ! a)) as = map (\<lambda>c. unusedBytes (h ! rootNode_node c)) cs"
proof -
  have len: "length as = length cs" using m by (rule mapRootNodes_length)
  obtain ext where ext: "h' = h @ ext" using m mapRootNodes_extends by blast
  have *: "resourceBytes (h' ! (as ! i)) = resourceBytes (h ! rootNode_node (cs ! i)) \<and>
           unusedBytes (h' ! (as ! i)) = unusedBytes (h ! rootNode_node (cs ! i))"
    if "i < length cs" for i
  proof -
    have "rootNode_node (cs ! i) < length h" using r that by simp
    then have "h' ! rootNode_node (cs ! i) = h ! rootNode_node (cs ! i)"
      using ext by (simp add: nth_append)
    then show ?thesis using mapRootNodes_nth[OF m r that] by (auto split: if_splits)
  qed
  show "map (\<lambda>a. resourceBytes (h' ! a)) as = map (\<lambda>c. resourceBytes (h ! rootNode_node c)) cs"
    using len * by (simp add: list_eq_iff_nth_eq)
  show "map (\<lambda>a. unusedBytes (h' ! a)) as = map (\<lambda>c. unusedBytes (h ! rootNode_node c)) cs"
    using len * by (simp add: list_eq_iff_nth_eq)
qed


lemma example_create:
  "createRootNodeForGroup exampleViewer ''scripts'' exampleHeap = Inr (exampleShownHeap, 6)"
  by (simp add: createRootNodeForGroup_def exampleViewer_def exampleRootNodes_def
      exampleShownHeap_def exampleHeap_def wrapRootNode_def unusedOrZero_def roundDouble_def)

text \<open>
  Claim C1, amended. The claim says that the new root's \<^verbatim>\<open>resourceBytes\<close> is the sum of
  the \<^verbatim>\<open>resourceBytes\<close> of the containers' nodes for every sequence of containers. Lines
  123 and 124 add doubles, so this holds while the sums are integers that doubles
  count exactly: when the \<^verbatim>\<open>resourceBytes\<close> of the containers' nodes are byte counts
  (non-negative integers) with a total of at most \<open>2\<^sup>5\<^sup>3\<close>, the root's \<^verbatim>\<open>resourceBytes\<close> is
  their sum; and when their \<^verbatim>\<open>unusedBytes\<close>, where they have one, are byte counts with a
  total of at most \<open>2\<^sup>5\<^sup>3\<close>, the root's \<^verbatim>\<open>unusedBytes\<close> is their sum, a missing one
  counted as 0. The example after it has the byte totals 10, 20 and 5 and the root 35.
\<close>

theorem createRootNodeForGroup_sums:
  assumes "map_of (rootNodesByGroup this) ''scripts'' = Some rootNodes"
    and "\<forall>c\<in>set rootNodes. rootNode_node c < length h"
  shows "\<exists>h' root. createRootNodeForGroup this ''scripts'' h = Inr (h', root) \<and>
           ((\<forall>c\<in>set rootNodes. isCount (resourceBytes (h ! rootNode_node c))) \<and>
            sum_list (map (\<lambda>c. byteCount (resourceBytes (h ! rootNode_node c))) rootNodes)
              \<le> 9007199254740992 \<longrightarrow>
            resourceBytes (h' ! root) =
              Num (sum_list (map (\<lambda>c. byteCount (resourceBytes (h ! rootNode_node c))) rootNodes))) \<and>
           ((\<forall>c\<in>set rootNodes. case unusedBytes (h ! rootNode_node c) of
                                    None \<Rightarrow> True | Some u \<Rightarrow> isCount u) \<and>
            sum_list (map (\<lambda>c. case unusedBytes (h ! rootNode_node c) of
                                  None \<Rightarrow> 0 | Some u \<Rightarrow> byteCount u) rootNodes)
              \<le> 9007199254740992 \<longrightarrow>
            unusedBytes (h' ! root) =
              Some (Num (sum_list (map (\<lambda>c. case unusedBytes (h ! rootNode_node c) of
                                              None \<Rightarrow> 0 | Some u \<Rightarrow> byteCount u) rootNodes))))"
proof -
  obtain h1 childs where m: "mapRootNodes ''scripts'' h rootNodes = (h1, childs)"
    by (cases "mapRootNodes ''scripts'' h rootNodes")
  let ?rb = "foldl (\<lambda>acc cur. jsAdd (resourceBytes (h1 ! cur)) acc) (Num 0) childs"
  let ?ub = "foldl (\<lambda>acc cur. jsAdd (unusedOrZero (h1 ! cur)) acc) (Num 0) childs"
  let ?root = "\<lparr>name = documentUrl this, resourceBytes = ?rb, unusedBytes = Some ?ub,
      children = Some childs\<rparr>"
  have c: "createRootNodeForGroup this ''scripts'' h = Inr (h1 @ [?root], length h1)"
    using assms(1) m by (simp add: createRootNodeForGroup_def)
  have rbs: "?rb = foldl (\<lambda>acc cur. jsAdd cur acc) (Num 0)
                     (map (\<lambda>c. resourceBytes (h ! rootNode_node c)) rootNodes)"
  proof -
    have "?rb = foldl (\<lambda>acc cur. jsAdd cur acc) (Num 0)
                  (map (\<lambda>a. resourceBytes (h1 ! a)) childs)"
      by (simp add: foldl_map)
    then show ?thesis by (simp only: mapRootNodes_bytes(1)[OF m assms(2)])
  qed
  have "map (\<lambda>a. unusedOrZero (h1 ! a)) childs =
        map (\<lambda>c. unusedOrZero (h ! rootNode_node c)) rootNodes"
    using mapRootNodes_bytes(2)[OF m assms(2)]
    unfolding unusedOrZero_def list_eq_iff_nth_eq by simp
  moreover have "?ub = foldl (\<lambda>acc cur. jsAdd cur acc) (Num 0)
                  (map (\<lambda>a. unusedOrZero (h1 ! a)) childs)"
    by (simp add: foldl_map)
  ultimately have ubs: "?ub = foldl (\<lambda>acc cur. jsAdd cur acc) (Num 0)
                     (map (\<lambda>c. unusedOrZero (h ! rootNode_node c)) rootNodes)"
    by (simp only:)
  have 1: "?rb = Num (sum_list (map (\<lambda>c. byteCount (resourceBytes (h ! rootNode_node c))) rootNodes))"
    if "\<forall>c\<in>set rootNodes. isCount (resourceBytes (h ! rootNode_node c))"
      and "sum_list (map (\<lambda>c. byteCount (resourceBytes (h ! rootNode_node c))) rootNodes)
              \<le> 9007199254740992"
    unfolding rbs
    using foldl_jsAdd_counts[of "map (\<lambda>c. resourceBytes (h ! rootNode_node c)) rootNodes" 0] that
    by (simp add: comp_def)
  have cnt: "isCount (unusedOrZero n) \<and>
             byteCount (unusedOrZero n) = (case unusedBytes n of None \<Rightarrow> 0 | Some u \<Rightarrow> byteCount u)"
    if "case unusedBytes n of None \<Rightarrow> True | Some u \<Rightarrow> isCount u" for n
    using that by (auto simp: unusedOrZero_def isCount_def split: option.splits)
  have 2: "?ub = Num (sum_list (map (\<lambda>c. case unusedBytes (h ! rootNode_node c) of
                                              None \<Rightarrow> 0 | Some u \<Rightarrow> byteCount u) rootNodes))"
    if u: "\<forall>c\<in>set rootNodes. case unusedBytes (h ! rootNode_node c) of
                                    None \<Rightarrow> True | Some u \<Rightarrow> isCount u"
      and t: "sum_list (map (\<lambda>c. case unusedBytes (h ! rootNode_node c) of
                                  None \<Rightarrow> 0 | Some u \<Rightarrow> byteCount u) rootNodes)
              \<le> 9007199254740992"
  proof -
    have e: "map byteCount (map (\<lambda>c. unusedOrZero (h ! rootNode_node c)) rootNodes) =
             map (\<lambda>c. case unusedBytes (h ! rootNode_node c) of
                         None \<Rightarrow> 0 | Some u \<Rightarrow> byteCount u) rootNodes"
      using u cnt by simp
    have "\<forall>x\<in>set (map (\<lambda>c. unusedOrZero (h ! rootNode_node c)) rootNodes). isCount x"
      using u cnt by auto
    from foldl_jsAdd_counts[OF this, of 0] t show ?thesis unfolding ubs e by simp
  qed
  show ?thesis unfolding c using 1 2 by simp
qed

theorem createRootNodeForGroup_sums_witness:
  "map_of (rootNodesByGroup exampleViewer) ''scripts'' = Some exampleRootNodes \<and>
   map (\<lambda>c. resourceBytes (exampleHeap ! rootNode_node c)) exampleRootNodes =
     [Num 10, Num 20, Num 5] \<and>
   createRootNodeForGroup exampleViewer ''scripts'' exampleHeap = Inr (exampleShownHeap, 6) \<and>
   resourceBytes (exampleShownHeap ! 6) = Num 35 \<and>
   unusedBytes (exampleShownHeap ! 6) = Some (Num 7)"
proof -
  have a: "map_of (rootNodesByGroup exampleViewer) ''scripts'' = Some exampleRootNodes"
    by (simp add: exampleViewer_def)
  have b: "\<forall>c\<in>set exampleRootNodes. rootNode_node c < length exampleHeap"
    by (simp add: exampleRootNodes_def exampleHeap_def)
  have c: "map (\<lambda>c. resourceBytes (exampleHeap ! rootNode_node c)) exampleRootNodes =
             [Num 10, Num 20, Num 5]"
    by (simp add: exampleRootNodes_def exampleHeap_def)
  have r: "(\<forall>c\<in>set exampleRootNodes. isCount (resourceBytes (exampleHeap ! rootNode_node c))) \<and>
           sum_list (map (\<lambda>c. byteCount (resourceBytes (exampleHeap ! rootNode_node c)))
                       exampleRootNodes) \<le> 9007199254740992"
    by (simp add: exampleRootNodes_def exampleHeap_def isCount_def)
  have u: "(\<forall>c\<in>set exampleRootNodes. case unusedBytes (exampleHeap ! rootNode_node c) of
                                    None \<Rightarrow> True | Some u \<Rightarrow> isCount u) \<and>
           sum_list (map (\<lambda>c. case unusedBytes (exampleHeap ! rootNode_node c) of
                                  None \<Rightarrow> 0 | Some u \<Rightarrow> byteCount u) exampleRootNodes)
              \<le> 9007199254740992"
    by (simp add: exampleRootNodes_def exampleHeap_def isCount_def)
  have sr: "sum_list (map (\<lambda>c. byteCount (resourceBytes (exampleHeap ! rootNode_node c)))
                       exampleRootNodes) = 35"
    by (simp add: exampleRootNodes_def exampleHeap_def)
  have su: "sum_list (map (\<lambda>c. case unusedBytes (exampleHeap ! rootNode_node c) of
                                  None \<Rightarrow> 0 | Some u \<Rightarrow> byteCount u) exampleRootNodes) = 7"
    by (simp add: exampleRootNodes_def exampleHeap_def)
  from createRootNodeForGroup_sums [OF a b] obtain h' root where
    k: "createRootNodeForGroup exampleViewer ''scripts'' exampleHeap = Inr (h', root)" and
    1: "resourceBytes (h' ! root) =
          Num (sum_list (map (\<lambda>c. byteCount (resourceBytes (exampleHeap ! rootNode_node c)))
                           exampleRootNodes))" and
    2: "unusedBytes (h' ! root) =
          Some (Num (sum_list (map (\<lambda>c. case unusedBytes (exampleHeap ! rootNode_node c) of
                                  None \<Rightarrow> 0 | Some u \<Rightarrow> byteCount u) exampleRootNodes)))"
    using r u by blast
  from k example_create have "h' = exampleShownHeap" "root = 6" by simp_all
  with 1 2 sr su a c example_create show ?thesis by simp
qed

text \<open>
  For the three scripts of \<open>2\<^sup>5\<^sup>3\<close>, 1 and 1 bytes the root has \<open>2\<^sup>5\<^sup>3\<close> bytes, and the sum is
  \<open>2\<^sup>5\<^sup>3 + 2\<close>: each addition of 1 to \<open>2\<^sup>5\<^sup>3\<close> is rounded back to \<open>2\<^sup>5\<^sup>3\<close>.
\<close>

theorem createRootNodeForGroup_sums_counterexample:
  "createRootNodeForGroup (exampleViewer\<lparr>rootNodesByGroup := [(''scripts'', bigScripts)]\<rparr>)
     ''scripts'' bigHeap =
     Inr (bigHeap @ [\<lparr>name = ''https://example.com/'', resourceBytes = Num 9007199254740992,
                       unusedBytes = Some (Num 0), children = Some [0, 1, 2]\<rparr>],
          4) \<and>
   map (resourceBytes \<circ> (!) bigHeap \<circ> rootNode_node) bigScripts =
     [Num 9007199254740992, Num 1, Num 1] \<and>
   Num 9007199254740992 \<noteq> Num (sum_list [9007199254740992, 1, 1])"
  by (simp add: createRootNodeForGroup_def exampleViewer_def bigScripts_def bigHeap_def
      wrapRootNode_def unusedOrZero_def roundDouble_def doubleExponent.simps Let_def)

text \<open>
  Claim C2. For no container at all the call does not throw: it returns a new root with
  \<^verbatim>\<open>resourceBytes\<close> 0, \<^verbatim>\<open>unusedBytes\<close> 0 and an empty array of children (the store grows
  by that one object).
\<close>

theorem createRootNodeForGroup_empty:
  "createRootNodeForGroup (this\<lparr>rootNodesByGroup := [(''scripts'', [])]\<rparr>) ''scripts'' h =
     Inr (h @ [\<lparr>name = documentUrl this, resourceBytes = Num 0, unusedBytes = Some (Num 0),
                 children = Some []\<rparr>],
          length h)"
  by (simp add: createRootNodeForGroup_def)

text \<open>
  Claim C3. The children of the new root are as many as the containers and in their
  order. The \<open>i\<close>-th child is the \<open>i\<close>-th container's node itself (the same object) when
  that node has no \<^verbatim>\<open>children\<close>; otherwise it is a wrapper whose name is the container's
  name, whose only child is the container's node, and whose \<^verbatim>\<open>resourceBytes\<close> and
  \<^verbatim>\<open>unusedBytes\<close> are those of the node. The test of line 109 is the truthiness of
  \<^verbatim>\<open>node.children\<close>: a node has children when it has the property.
\<close>

theorem createRootNodeForGroup_children:
  assumes "map_of (rootNodesByGroup this) ''scripts'' = Some rootNodes"
    and "\<forall>c\<in>set rootNodes. rootNode_node c < length h"
  shows "\<exists>h' root childs.
           createRootNodeForGroup this ''scripts'' h = Inr (h', root) \<and>
           children (h' ! root) = Some childs \<and>
           length childs = length rootNodes \<and>
           (\<forall>i<length rootNodes.
              (children (h ! rootNode_node (rootNodes ! i)) = None \<longrightarrow>
                 childs ! i = rootNode_node (rootNodes ! i)) \<and>
              (children (h ! rootNode_node (rootNodes ! i)) \<noteq> None \<longrightarrow>
                 name (h' ! (childs ! i)) = rootNode_name (rootNodes ! i) \<and>
                 children (h' ! (childs ! i)) = Some [rootNode_node (rootNodes ! i)] \<and>
                 resourceBytes (h' ! (childs ! i)) =
                   resourceBytes (h ! rootNode_node (rootNodes ! i)) \<and>
                 unusedBytes (h' ! (childs ! i)) =
                   unusedBytes (h ! rootNode_node (rootNodes ! i))))"
proof -
  obtain h1 childs where m: "mapRootNodes ''scripts'' h rootNodes = (h1, childs)"
    by (cases "mapRootNodes ''scripts'' h rootNodes")
  let ?root = "\<lparr>name = documentUrl this,
      resourceBytes = foldl (\<lambda>acc cur. jsAdd (resourceBytes (h1 ! cur)) acc) (Num 0) childs,
      unusedBytes = Some (foldl (\<lambda>acc cur. jsAdd (unusedOrZero (h1 ! cur)) acc) (Num 0) childs),
      children = Some childs\<rparr>"
  have c: "createRootNodeForGroup this ''scripts'' h = Inr (h1 @ [?root], length h1)"
    using assms(1) m by (simp add: createRootNodeForGroup_def)
  have len: "length childs = length rootNodes" using m by (rule mapRootNodes_length)
  have each: "(children (h ! rootNode_node (rootNodes ! i)) = None \<longrightarrow>
                 childs ! i = rootNode_node (rootNodes ! i)) \<and>
              (children (h ! rootNode_node (rootNodes ! i)) \<noteq> None \<longrightarrow>
                 name ((h1 @ [?root]) ! (childs ! i)) = rootNode_name (rootNodes ! i) \<and>
                 children ((h1 @ [?root]) ! (childs ! i)) = Some [rootNode_node (rootNodes ! i)] \<and>
                 resourceBytes ((h1 @ [?root]) ! (childs ! i)) =
                   resourceBytes (h ! rootNode_node (rootNodes ! i)) \<and>
                 unusedBytes ((h1 @ [?root]) ! (childs ! i)) =
                   unusedBytes (h ! rootNode_node (rootNodes ! i)))"
    if "i < length rootNodes" for i
    using mapRootNodes_nth [OF m assms(2) that] by (auto simp: nth_append)
  show ?thesis
    unfolding c using len each by simp
qed

theorem createRootNodeForGroup_children_witness:
  "map_of (rootNodesByGroup exampleViewer) ''scripts'' = Some exampleRootNodes \<and>
   (\<exists>h' root childs.
      createRootNodeForGroup exampleViewer ''scripts'' exampleHeap = Inr (h', root) \<and>
      children (h' ! root) = Some childs \<and> length childs = 3 \<and>
      childs ! 0 = 0 \<and>
      name (h' ! (childs ! 1)) = ''bundle.js'' \<and> children (h' ! (childs ! 1)) = Some [3] \<and>
      resourceBytes (h' ! (childs ! 1)) = Num 20 \<and>
      unusedBytes (h' ! (childs ! 1)) = Some (Num 3) \<and>
      childs ! 2 = 4)"
proof -
  have a: "map_of (rootNodesByGroup exampleViewer) ''scripts'' = Some exampleRootNodes"
    by (simp add: exampleViewer_def)
  have b: "\<forall>c\<in>set exampleRootNodes. rootNode_node c < length exampleHeap"
    by (simp add: exampleRootNodes_def exampleHeap_def)
  from createRootNodeForGroup_children [OF a b] obtain h' root childs where
    c: "createRootNodeForGroup exampleViewer ''scripts'' exampleHeap = Inr (h', root)"
      "children (h' ! root) = Some childs" "length childs = length exampleRootNodes" and
    e: "\<And>i. i < length exampleRootNodes \<Longrightarrow>
          (children (exampleHeap ! rootNode_node (exampleRootNodes ! i)) = None \<longrightarrow>
             childs ! i = rootNode_node (exampleRootNodes ! i)) \<and>
          (children (exampleHeap ! rootNode_node (exampleRootNodes ! i)) \<noteq> None \<longrightarrow>
             name (h' ! (childs ! i)) = rootNode_name (exampleRootNodes ! i) \<and>
             children (h' ! (childs ! i)) = Some [rootNode_node (exampleRootNodes ! i)] \<and>
             resourceBytes (h' ! (childs ! i)) =
               resourceBytes (exampleHeap ! rootNode_node (exampleRootNodes ! i)) \<and>
             unusedBytes (h' ! (childs ! i)) =
               unusedBytes (exampleHeap ! rootNode_node (exampleRootNodes ! i)))"
    by blast
  from e [of 0] have e0: "childs ! 0 = 0"
    by (simp add: exampleRootNodes_def exampleHeap_def)
  from e [of 1] have e1: "name (h' ! (childs ! 1)) = ''bundle.js''"
      "children (h' ! (childs ! 1)) = Some [3]"
      "resourceBytes (h' ! (childs ! 1)) = Num 20" "unusedBytes (h' ! (childs ! 1)) = Some (Num 3)"
    by (simp_all add: exampleRootNodes_def exampleHeap_def)
  from e [of 2] have e2: "childs ! 2 = 4"
    by (simp add: exampleRootNodes_def exampleHeap_def)
  from c(3) have l: "length childs = 3" by (simp add: exampleRootNodes_def)
  from a c(1,2) l e0 e1 e2 show ?thesis by blast
qed

text \<open>
  Claim C8. \<open>createRootNodeForGroup\<close> changes no object that exists before the call:
  every object of the store (the containers' nodes and all that can be reached from
  them among others) is the same after it, name, \<^verbatim>\<open>resourceBytes\<close>, \<^verbatim>\<open>unusedBytes\<close> and
  \<^verbatim>\<open>children\<close>. The new root is a new object, and every child of it is the container's
  own node or a new object (a wrapper), which is older than the root. The containers
  are read from the viewer, which the call does not write to.
\<close>

theorem createRootNodeForGroup_frame:
  assumes "map_of (rootNodesByGroup this) ''scripts'' = Some rootNodes"
    and "\<forall>c\<in>set rootNodes. rootNode_node c < length h"
  shows "\<exists>h' root childs.
           createRootNodeForGroup this ''scripts'' h = Inr (h', root) \<and>
           children (h' ! root) = Some childs \<and>
           length h \<le> length h' \<and>
           (\<forall>a<length h. h' ! a = h ! a) \<and>
           length h \<le> root \<and> root < length h' \<and>
           (\<forall>i<length rootNodes.
              childs ! i < root \<and>
              (children (h ! rootNode_node (rootNodes ! i)) = None \<longrightarrow>
                 childs ! i = rootNode_node (rootNodes ! i)) \<and>
              (children (h ! rootNode_node (rootNodes ! i)) \<noteq> None \<longrightarrow>
                 length h \<le> childs ! i))"
proof -
  obtain h1 childs where m: "mapRootNodes ''scripts'' h rootNodes = (h1, childs)"
    by (cases "mapRootNodes ''scripts'' h rootNodes")
  let ?root = "\<lparr>name = documentUrl this,
      resourceBytes = foldl (\<lambda>acc cur. jsAdd (resourceBytes (h1 ! cur)) acc) (Num 0) childs,
      unusedBytes = Some (foldl (\<lambda>acc cur. jsAdd (unusedOrZero (h1 ! cur)) acc) (Num 0) childs),
      children = Some childs\<rparr>"
  have c: "createRootNodeForGroup this ''scripts'' h = Inr (h1 @ [?root], length h1)"
    using assms(1) m by (simp add: createRootNodeForGroup_def)
  obtain ext where ext: "h1 = h @ ext" using m mapRootNodes_extends by blast
  have old: "\<forall>a<length h. (h1 @ [?root]) ! a = h ! a"
    using ext by (simp add: nth_append)
  have each: "childs ! i < length h1 \<and>
              (children (h ! rootNode_node (rootNodes ! i)) = None \<longrightarrow>
                 childs ! i = rootNode_node (rootNodes ! i)) \<and>
              (children (h ! rootNode_node (rootNodes ! i)) \<noteq> None \<longrightarrow>
                 length h \<le> childs ! i)"
    if "i < length rootNodes" for i
    using mapRootNodes_nth [OF m assms(2) that] by (auto split: if_splits)
  show ?thesis
    unfolding c using old each ext by simp
qed

theorem createRootNodeForGroup_frame_witness:
  "map_of (rootNodesByGroup exampleViewer) ''scripts'' = Some exampleRootNodes \<and>
   (\<exists>h' root childs.
      createRootNodeForGroup exampleViewer ''scripts'' exampleHeap = Inr (h', root) \<and>
      children (h' ! root) = Some childs \<and>
      take 5 h' = exampleHeap \<and> 5 \<le> root \<and> 5 \<le> childs ! 1 \<and> childs ! 1 < root)"
proof -
  have a: "map_of (rootNodesByGroup exampleViewer) ''scripts'' = Some exampleRootNodes"
    by (simp add: exampleViewer_def)
  have b: "\<forall>c\<in>set exampleRootNodes. rootNode_node c < length exampleHeap"
    by (simp add: exampleRootNodes_def exampleHeap_def)
  from createRootNodeForGroup_frame [OF a b] obtain h' root childs where
    c: "createRootNodeForGroup exampleViewer ''scripts'' exampleHeap = Inr (h', root)"
      "children (h' ! root) = Some childs" "length exampleHeap \<le> length h'"
      "\<forall>a<length exampleHeap. h' ! a = exampleHeap ! a" "length exampleHeap \<le> root" and
    e: "\<And>i. i < length exampleRootNodes \<Longrightarrow>
          childs ! i < root \<and>
          (children (exampleHeap ! rootNode_node (exampleRootNodes ! i)) = None \<longrightarrow>
             childs ! i = rootNode_node (exampleRootNodes ! i)) \<and>
          (children (exampleHeap ! rootNode_node (exampleRootNodes ! i)) \<noteq> None \<longrightarrow>
             length exampleHeap \<le> childs ! i)"
    by blast
  have len: "length exampleHeap = 5" by (simp add: exampleHeap_def)
  from e [of 1] have e1: "5 \<le> childs ! 1" "childs ! 1 < root"
    by (simp_all add: exampleRootNodes_def exampleHeap_def)
  have "take 5 h' = exampleHeap"
    using c(3,4) len by (simp add: list_eq_iff_nth_eq)
  with a c(1,2,5) e1 len show ?thesis by auto
qed

section \<open>Properties of the constructor and of the message handler\<close>

text \<open>
  Claim C6. The data validation of the constructor (lines 21 to 25) throws exactly
  when the audit details of the options are missing or have no \<^verbatim>\<open>treemapData\<close>. The
  error is \<^verbatim>\<open>Error('missing script-treemap-data')\<close>, or the \<^verbatim>\<open>TypeError\<close> of reading
  through a missing \<^verbatim>\<open>lhr\<close> or a missing audit; the constructor ends with it, so there
  is no viewer. For all other options the validation gives the treemap data.
\<close>

theorem constructor_validation:
  "((\<exists>e. scriptRootNodes opts = Inl e) \<longleftrightarrow>
      (auditDetails opts = None \<or> (\<exists>d. auditDetails opts = Some d \<and> treemapData d = None))) \<and>
   (\<forall>e. scriptRootNodes opts = Inl e \<longrightarrow>
      (e = TypeError \<or> e = Error ''missing script-treemap-data'') \<and>
      TreemapViewer fuel COLOR_HUES opts h = Inl e) \<and>
   (\<forall>d roots. auditDetails opts = Some d \<and> treemapData d = Some roots \<longrightarrow>
      scriptRootNodes opts = Inr roots)"
  by (auto simp: scriptRootNodes_def auditDetails_def TreemapViewer_def split: option.splits)

theorem constructor_validation_witness:
  "auditDetails \<lparr>lhr = Some \<lparr>audits = [(''script-treemap-data'', \<lparr>details = Some \<lparr>treemapData = None\<rparr>\<rparr>)],
                               requestedUrl = ''https://example.com/''\<rparr>\<rparr> = Some \<lparr>treemapData = None\<rparr> \<and>
   TreemapViewer 5 [0, 120]
     \<lparr>lhr = Some \<lparr>audits = [(''script-treemap-data'', \<lparr>details = Some \<lparr>treemapData = None\<rparr>\<rparr>)],
                   requestedUrl = ''https://example.com/''\<rparr>\<rparr> exampleHeap =
     Inl (Error ''missing script-treemap-data'') \<and>
   auditDetails exampleOptions = Some \<lparr>treemapData = Some exampleRootNodes\<rparr> \<and>
   scriptRootNodes exampleOptions = Inr exampleRootNodes"
proof -
  let ?bad = "\<lparr>lhr = Some \<lparr>audits = [(''script-treemap-data'', \<lparr>details = Some \<lparr>treemapData = None\<rparr>\<rparr>)],
                               requestedUrl = ''https://example.com/''\<rparr>\<rparr>"
  have d: "auditDetails ?bad = Some \<lparr>treemapData = None\<rparr>" by (simp add: auditDetails_def)
  have s: "scriptRootNodes ?bad = Inl (Error ''missing script-treemap-data'')"
    by (simp add: scriptRootNodes_def)
  have g: "auditDetails exampleOptions = Some \<lparr>treemapData = Some exampleRootNodes\<rparr>"
    by (simp add: auditDetails_def exampleOptions_def)
  from constructor_validation [of ?bad 5 "[0, 120]" exampleHeap] s
  have "TreemapViewer 5 [0, 120] ?bad exampleHeap = Inl (Error ''missing script-treemap-data'')"
    by blast
  moreover from constructor_validation [of exampleOptions] g
  have "scriptRootNodes exampleOptions = Inr exampleRootNodes" by simp
  ultimately show ?thesis using d g by simp
qed

text \<open>
  Claim C7. The message handler calls \<^verbatim>\<open>init\<close> exactly when the source of the message
  is \<^verbatim>\<open>self.opener\<close> (the comparison of line 296, by identity; a message without
  source passes it on a page without opener, both being \<^verbatim>\<open>null\<close>), the data has an
  \<^verbatim>\<open>lhr\<close>, and the \<^verbatim>\<open>requestedUrl\<close> of that is not empty; \<^verbatim>\<open>init\<close> then gets the data of
  the message. For every other message \<^verbatim>\<open>init\<close> is not called: the handler returns
  early, or the destructuring throws.
\<close>

theorem onMessage_init:
  "onMessage opener e = Inr (Some opts) \<longleftrightarrow>
     source e = opener \<and> data e = Some opts \<and>
     (\<exists>result. lhr opts = Some result \<and> requestedUrl result \<noteq> [])"
  by (auto simp: onMessage_def Let_def split: option.splits)

theorem onMessage_init_witness:
  "onMessage (Some 7) \<lparr>source = Some 7, data = Some exampleOptions\<rparr> = Inr (Some exampleOptions) \<and>
   onMessage None \<lparr>source = None, data = Some exampleOptions\<rparr> = Inr (Some exampleOptions) \<and>
   onMessage (Some 7) \<lparr>source = Some 8, data = Some exampleOptions\<rparr> = Inr None \<and>
   onMessage (Some 7) \<lparr>source = None, data = Some exampleOptions\<rparr> = Inr None \<and>
   onMessage (Some 7) \<lparr>source = Some 7, data = Some \<lparr>lhr = None\<rparr>\<rparr> = Inr None \<and>
   onMessage (Some 7) \<lparr>source = Some 7, data = None\<rparr> = Inl TypeError"
  using onMessage_init [of "Some 7" "\<lparr>source = Some 7, data = Some exampleOptions\<rparr>" exampleOptions]
  by (simp add: onMessage_def exampleOptions_def)

section \<open>Properties of the walks\<close>




lemma childFirst_child:
  "childFirst h \<Longrightarrow> a < length h \<Longrightarrow> children (h ! a) = Some cs \<Longrightarrow> c \<in> set cs \<Longrightarrow> c < a"
proof -
  assume v: "childFirst h" and a: "a < length h" and c: "children (h ! a) = Some cs" "c \<in> set cs"
  from v a have "case children (h ! a) of None \<Rightarrow> True | Some cs \<Rightarrow> \<forall>c\<in>set cs. c < a"
    unfolding childFirst_def by blast
  with c show ?thesis by simp
qed

lemma dfs_nodes_total:
  "childFirst h \<Longrightarrow> \<forall>a\<in>set as. a < length h \<and> a < fuel \<Longrightarrow> dfs_nodes fuel h as \<noteq> None"
proof (induction fuel h as rule: dfs_nodes.induct)
  case (1 fuel h)
  then show ?case by simp
next
  case (2 h node rest)
  have "node \<in> set (node # rest)" by simp
  with "2.prems"(2) have "node < 0" by blast
  then show ?case by simp
next
  case (3 fuel h node rest)
  let ?inner = "case children (h ! node) of None \<Rightarrow> Some [] | Some cs \<Rightarrow> dfs_nodes fuel h cs"
  have "?inner \<noteq> None"
  proof (cases "children (h ! node)")
    case None
    then show ?thesis by simp
  next
    case (Some cs)
    have "\<forall>c\<in>set cs. c < node" using childFirst_child[OF "3.prems"(1) _ Some] "3.prems"(2) by simp
    then have "\<forall>c\<in>set cs. c < length h \<and> c < fuel" using "3.prems"(2) by auto
    from "3.IH"(1)[OF Some "3.prems"(1) this] Some show ?thesis by simp
  qed
  then obtain below where b: "?inner = Some below" by auto
  have "dfs_nodes (Suc fuel) h rest \<noteq> None"
    using "3.IH"(2)[OF b "3.prems"(1)] "3.prems"(2) by simp
  with b show ?case by auto
qed









section \<open>Properties of the hasher and of updateColors\<close>

text \<open>
  A call for a key leaves the hasher in a state where the same call gives the same
  result and changes nothing, and no call for another key ends that.
\<close>

lemma callHasher_again:
  "callHasher s k = (r, s') \<Longrightarrow> callHasher s' k = (r, s')"
  by (auto simp: callHasher_def split: option.splits if_splits)

lemma callHasher_keeps:
  assumes "callHasher s k = (r, s)" and "callHasher s k' = (r', s')"
  shows "callHasher s' k = (r, s')"
proof (cases "map_of (assignedItems s) k")
  case None
  with assms(1) have full: "\<not> length (assignedItems s) < length (items s)"
    by (auto simp: callHasher_def split: if_splits dest: arg_cong[where f=assignedItems])
  with assms(2) have "s' = s"
    by (auto simp: callHasher_def split: option.splits if_splits)
  with assms(1) show ?thesis by simp
next
  case (Some i)
  with assms show ?thesis
    by (auto simp: callHasher_def split: option.splits if_splits)
qed

lemma callHasherAll_length: "length (fst (callHasherAll s ks)) = length ks"
proof (induction ks arbitrary: s)
  case Nil
  then show ?case by simp
next
  case (Cons k ks)
  obtain r s' where c: "callHasher s k = (r, s')" by (cases "callHasher s k")
  obtain hs s2 where a: "callHasherAll s' ks = (hs, s2)" by (cases "callHasherAll s' ks")
  from Cons.IH[of s'] c a show ?case by simp
qed

lemma callHasherAll_fixed:
  assumes "callHasher s k = (r, s)" and "i < length ks" and "ks ! i = k"
  shows "fst (callHasherAll s ks) ! i = r"
  using assms
proof (induction ks arbitrary: s i)
  case Nil
  then show ?case by simp
next
  case (Cons k' ks)
  obtain r' s' where c: "callHasher s k' = (r', s')" by (cases "callHasher s k'")
  obtain hs s2 where a: "callHasherAll s' ks = (hs, s2)" by (cases "callHasherAll s' ks")
  show ?case
  proof (cases i)
    case 0
    with Cons.prems c a show ?thesis by simp
  next
    case (Suc n)
    have "callHasher s' k = (r, s')" using Cons.prems(1) c by (rule callHasher_keeps)
    from Cons.IH[OF this, of n] Suc Cons.prems c a show ?thesis by simp
  qed
qed

lemma callHasherAll_same_key:
  assumes "i < length ks" and "j < length ks" and "ks ! i = ks ! j"
  shows "fst (callHasherAll s ks) ! i = fst (callHasherAll s ks) ! j"
  using assms
proof (induction ks arbitrary: s i j)
  case Nil
  then show ?case by simp
next
  case (Cons k ks)
  obtain r s' where c: "callHasher s k = (r, s')" by (cases "callHasher s k")
  obtain hs s2 where a: "callHasherAll s' ks = (hs, s2)" by (cases "callHasherAll s' ks")
  have again: "callHasher s' k = (r, s')" using c by (rule callHasher_again)
  have later: "hs ! n = r" if "n < length ks" "ks ! n = k" for n
    using callHasherAll_fixed[OF again that] a by simp
  show ?case
  proof (cases i)
    case 0
    show ?thesis
    proof (cases j)
      case 0
      with \<open>i = 0\<close> show ?thesis by simp
    next
      case (Suc m)
      with 0 Cons.prems c a later[of m] show ?thesis by simp
    qed
  next
    case (Suc n)
    show ?thesis
    proof (cases j)
      case 0
      with Suc Cons.prems c a later[of n] show ?thesis by simp
    next
      case (Suc m)
      with \<open>i = Suc n\<close> Cons.prems c a Cons.IH[of n m s'] show ?thesis by simp
    qed
  qed
qed

text \<open>
  Claim C4. On one hasher (the \<^verbatim>\<open>getHue\<close> of one viewer), any two calls for the same
  key give the same result, a hue or \<^verbatim>\<open>undefined\<close> both times: \<open>keys\<close> is the sequence
  of all the keys the hasher is called with, from its creation on.
\<close>

theorem getHue_idempotent:
  assumes "i < length keys" and "j < length keys" and "keys ! i = keys ! j"
  shows "fst (callHasherAll (stableHasher palette) keys) ! i =
         fst (callHasherAll (stableHasher palette) keys) ! j"
  using assms by (rule callHasherAll_same_key)

theorem getHue_idempotent_witness:
  "fst (callHasherAll (stableHasher [0, 120 :: int]) [''a.js'', ''bundle.js'', ''a.js'', ''c.js'', ''c.js'']) ! 0 =
   fst (callHasherAll (stableHasher [0, 120 :: int]) [''a.js'', ''bundle.js'', ''a.js'', ''c.js'', ''c.js'']) ! 2 \<and>
   fst (callHasherAll (stableHasher [0, 120 :: int]) [''a.js'', ''bundle.js'', ''a.js'', ''c.js'', ''c.js'']) ! 3 =
   fst (callHasherAll (stableHasher [0, 120 :: int]) [''a.js'', ''bundle.js'', ''a.js'', ''c.js'', ''c.js'']) ! 4 \<and>
   fst (callHasherAll (stableHasher [0, 120 :: int]) [''a.js'', ''bundle.js'', ''a.js'', ''c.js'', ''c.js'']) =
     [Some 0, Some 120, Some 0, None, None]"
proof -
  let ?keys = "[''a.js'', ''bundle.js'', ''a.js'', ''c.js'', ''c.js'']"
  have "fst (callHasherAll (stableHasher [0, 120 :: int]) ?keys) ! 0 =
        fst (callHasherAll (stableHasher [0, 120 :: int]) ?keys) ! 2"
    by (rule getHue_idempotent) simp_all
  moreover have "fst (callHasherAll (stableHasher [0, 120 :: int]) ?keys) ! 3 =
        fst (callHasherAll (stableHasher [0, 120 :: int]) ?keys) ! 4"
    by (rule getHue_idempotent) simp_all
  moreover have "fst (callHasherAll (stableHasher [0, 120 :: int]) ?keys) =
     [Some 0, Some 120, Some 0, None, None]"
    by (simp add: stableHasher_def callHasher_def)
  ultimately show ?thesis by blast
qed

lemma callHasherAll_append:
  "callHasherAll s (xs @ ys) =
     (fst (callHasherAll s xs) @ fst (callHasherAll (snd (callHasherAll s xs)) ys),
      snd (callHasherAll (snd (callHasherAll s xs)) ys))"
proof (induction xs arbitrary: s)
  case Nil
  then show ?case by simp
next
  case (Cons k xs)
  obtain r s' where c: "callHasher s k = (r, s')" by (cases "callHasher s k")
  from Cons.IH[of s'] c show ?case by (simp split: prod.splits)
qed

lemma callHasherAll_nth:
  assumes "i < length ks"
  shows "fst (callHasherAll s ks) ! i =
         fst (callHasher (snd (callHasherAll s (take i ks))) (ks ! i))"
proof -
  have ks: "ks = take i ks @ (ks ! i # drop (Suc i) ks)"
    using assms by (simp add: id_take_nth_drop[symmetric])
  have len: "length (fst (callHasherAll s (take i ks))) = i"
    using assms by (simp add: callHasherAll_length)
  have "fst (callHasherAll s ks) ! i =
        fst (callHasherAll s (take i ks @ (ks ! i # drop (Suc i) ks))) ! i"
    using ks by simp
  also have "\<dots> = fst (callHasherAll (snd (callHasherAll s (take i ks)))
                        (ks ! i # drop (Suc i) ks)) ! 0"
    unfolding callHasherAll_append using len by (simp add: nth_append)
  also have "\<dots> = fst (callHasher (snd (callHasherAll s (take i ks))) (ks ! i))"
    by (simp split: prod.splits)
  finally show ?thesis .
qed

lemma callHasher_invariant:
  assumes "fst ` set (assignedItems s) \<subseteq> set xs"
    and "length (assignedItems s) = min (card (set xs)) (length (items s))"
    and "card (set xs) \<le> length (items s) \<longrightarrow> set xs \<subseteq> fst ` set (assignedItems s)"
    and "callHasher s k = (r, s')"
  shows "items s' = items s \<and>
         fst ` set (assignedItems s') \<subseteq> set (xs @ [k]) \<and>
         length (assignedItems s') = min (card (set (xs @ [k]))) (length (items s')) \<and>
         (card (set (xs @ [k])) \<le> length (items s') \<longrightarrow>
            set (xs @ [k]) \<subseteq> fst ` set (assignedItems s'))"
proof (cases "map_of (assignedItems s) k")
  case (Some i)
  then have kin: "k \<in> fst ` set (assignedItems s)" by (metis map_of_eq_None_iff option.distinct(1))
  then have "k \<in> set xs" using assms(1) by auto
  then have same: "set (xs @ [k]) = set xs" by auto
  from Some assms(4) have "s' = s" by (auto simp: callHasher_def)
  then show ?thesis using assms(1-3) unfolding same by simp
next
  case None
  then have knot: "k \<notin> fst ` set (assignedItems s)" by (simp add: map_of_eq_None_iff)
  show ?thesis
  proof (cases "length (assignedItems s) < length (items s)")
    case True
    with assms(2) have cs: "card (set xs) = length (assignedItems s)" by (simp add: min_def split: if_splits)
    with True assms(3) have sub: "set xs \<subseteq> fst ` set (assignedItems s)" by simp
    with knot have "k \<notin> set xs" by auto
    then have card': "card (set (xs @ [k])) = Suc (card (set xs))" by simp
    from None True assms(4) have s': "s' = s\<lparr>assignedItems := (k, length (assignedItems s)) # assignedItems s\<rparr>"
      by (auto simp: callHasher_def)
    show ?thesis unfolding s' card' using assms(1) sub cs True by auto
  next
    case False
    with assms(2) have full: "length (assignedItems s) = length (items s)" "length (items s) \<le> card (set xs)"
      by (simp_all add: min_def split: if_splits)
    from None False assms(4) have s': "s' = s" by (auto simp: callHasher_def)
    have mono: "card (set xs) \<le> card (set (xs @ [k]))" by (rule card_mono) auto
    have "\<not> card (set (xs @ [k])) \<le> length (items s)"
    proof
      assume le: "card (set (xs @ [k])) \<le> length (items s)"
      with mono full have eq: "card (set (xs @ [k])) = card (set xs)" by simp
      have "set xs = set (xs @ [k])" by (rule card_subset_eq) (use eq in auto)
      then have "k \<in> set xs" by auto
      moreover from le mono have "card (set xs) \<le> length (items s)" by simp
      ultimately have "k \<in> fst ` set (assignedItems s)" using assms(3) by auto
      with knot show False by simp
    qed
    then show ?thesis unfolding s' using assms(1) full mono by (auto simp: min_def)
  qed
qed

lemma callHasherAll_invariant:
  assumes "fst ` set (assignedItems s) \<subseteq> set xs"
    and "length (assignedItems s) = min (card (set xs)) (length (items s))"
    and "card (set xs) \<le> length (items s) \<longrightarrow> set xs \<subseteq> fst ` set (assignedItems s)"
  shows "items (snd (callHasherAll s ys)) = items s \<and>
         fst ` set (assignedItems (snd (callHasherAll s ys))) \<subseteq> set (xs @ ys) \<and>
         length (assignedItems (snd (callHasherAll s ys))) =
           min (card (set (xs @ ys))) (length (items s)) \<and>
         (card (set (xs @ ys)) \<le> length (items s) \<longrightarrow>
            set (xs @ ys) \<subseteq> fst ` set (assignedItems (snd (callHasherAll s ys))))"
  using assms
proof (induction ys arbitrary: s xs)
  case Nil
  then show ?case by simp
next
  case (Cons k ys)
  obtain r s' where c: "callHasher s k = (r, s')" by (cases "callHasher s k")
  note step = callHasher_invariant[OF Cons.prems c]
  then have it: "items s' = items s" by simp
  have "items (snd (callHasherAll s' ys)) = items s' \<and>
         fst ` set (assignedItems (snd (callHasherAll s' ys))) \<subseteq> set ((xs @ [k]) @ ys) \<and>
         length (assignedItems (snd (callHasherAll s' ys))) =
           min (card (set ((xs @ [k]) @ ys))) (length (items s')) \<and>
         (card (set ((xs @ [k]) @ ys)) \<le> length (items s') \<longrightarrow>
            set ((xs @ [k]) @ ys) \<subseteq> fst ` set (assignedItems (snd (callHasherAll s' ys))))"
    by (rule Cons.IH) (use step in simp_all)
  moreover have "snd (callHasherAll s (k # ys)) = snd (callHasherAll s' ys)"
    using c by (simp split: prod.splits)
  ultimately show ?case using it by simp
qed

lemma first_seen_hue:
  assumes "i < length keys" and "keys ! i \<notin> set (take i keys)"
  shows "fst (callHasherAll (stableHasher palette) keys) ! i =
         (if card (set (take i keys)) < length palette
          then Some (palette ! card (set (take i keys))) else None)"
proof -
  let ?s = "snd (callHasherAll (stableHasher palette) (take i keys))"
  have inv: "items ?s = palette \<and>
         fst ` set (assignedItems ?s) \<subseteq> set (take i keys) \<and>
         length (assignedItems ?s) = min (card (set (take i keys))) (length palette) \<and>
         (card (set (take i keys)) \<le> length palette \<longrightarrow>
            set (take i keys) \<subseteq> fst ` set (assignedItems ?s))"
    using callHasherAll_invariant[of "stableHasher palette" "[]" "take i keys"]
    by (simp add: stableHasher_def)
  then have "keys ! i \<notin> fst ` set (assignedItems ?s)" using assms(2) by auto
  then have none: "map_of (assignedItems ?s) (keys ! i) = None" by (simp add: map_of_eq_None_iff)
  have "fst (callHasher ?s (keys ! i)) =
        (if card (set (take i keys)) < length palette
          then Some (palette ! card (set (take i keys))) else None)"
    using none inv by (auto simp: callHasher_def min_def split: if_splits)
  then show ?thesis unfolding callHasherAll_nth[OF assms(1)] .
qed


lemma seen_hue:
  assumes "i < length keys" and "j \<le> i" and "keys ! j = keys ! i"
    and "keys ! i \<notin> set (take j keys)"
  shows "fst (callHasherAll (stableHasher palette) keys) ! i =
         (if card (set (take j keys)) < length palette
          then Some (palette ! card (set (take j keys))) else None)"
proof -
  have j: "j < length keys" using assms(1,2) by simp
  have "fst (callHasherAll (stableHasher palette) keys) ! i =
        fst (callHasherAll (stableHasher palette) keys) ! j"
    using assms(1) j assms(3) by (intro callHasherAll_same_key) simp_all
  also have "\<dots> = (if card (set (take j keys)) < length palette
          then Some (palette ! card (set (take j keys))) else None)"
    using j assms(3,4) by (intro first_seen_hue) simp_all
  finally show ?thesis .
qed

text \<open>
  What \<open>updateColors\<close> returns when the walk returns: the hasher after the calls for the
  keys of the nodes in the order of the walk, and a colour for every node that has a
  DOM element, white with black text where the call gave no hue.
\<close>

lemma colorNodes_result:
  "colorNodes hsl hasDom this h s nodes =
     (snd (callHasherAll s (map (hueKey this h) nodes)),
      map (\<lambda>(node, hue). (node, case hue of None \<Rightarrow> (''white'', ''black'')
                                  | Some hu \<Rightarrow> (hsl hu 60 90, ''black'')))
        (filter (\<lambda>(node, hue). hasDom node)
           (zip nodes (fst (callHasherAll s (map (hueKey this h) nodes))))))"
proof (induction nodes arbitrary: s)
  case Nil
  then show ?case by simp
next
  case (Cons node nodes)
  obtain hue s1 where c: "callHasher s (hueKey this h node) = (hue, s1)"
    by (cases "callHasher s (hueKey this h node)")
  obtain hues s2 where a: "callHasherAll s1 (map (hueKey this h) nodes) = (hues, s2)"
    by (cases "callHasherAll s1 (map (hueKey this h) nodes)")
  from Cons.IH[of s1] c a show ?case
    by (simp add: colorNode_def nodeColors_def split: option.splits)
qed

lemma updateColors_result:
  assumes "currentRootNode this = Some root" and "dfs fuel h root = Some nodes"
  shows "updateColors fuel hsl hasDom this h =
     Inr (this\<lparr>getHue := snd (callHasherAll (getHue this) (map (hueKey this h) nodes))\<rparr>,
          map (\<lambda>(node, hue). (node, case hue of None \<Rightarrow> (''white'', ''black'')
                                      | Some hu \<Rightarrow> (hsl hu 60 90, ''black'')))
            (filter (\<lambda>(node, hue). hasDom node)
               (zip nodes (fst (callHasherAll (getHue this) (map (hueKey this h) nodes))))))"
  using assms by (simp add: updateColors_def colorNodes_result)

lemma painted_nth:
  assumes "i < length nodes" and "hasDom (nodes ! i)" and "length hues = length nodes"
  shows "(nodes ! i, case hues ! i of None \<Rightarrow> (''white'', ''black'')
                      | Some hu \<Rightarrow> (hsl hu 60 90, ''black''))
         \<in> set (map (\<lambda>(node, hue). (node, case hue of None \<Rightarrow> (''white'', ''black'')
                                           | Some hu \<Rightarrow> (hsl hu 60 90, ''black'')))
                  (filter (\<lambda>(node, hue). hasDom node) (zip nodes hues)))"
proof -
  have "(nodes ! i, hues ! i) \<in> set (zip nodes hues)"
    using assms(1,3) by (auto simp: set_zip)
  then have "(nodes ! i, hues ! i) \<in> set (filter (\<lambda>(node, hue). hasDom node) (zip nodes hues))"
    using assms(2) by simp
  then show ?thesis by force
qed

lemma dfs_total:
  assumes "childFirst h" and "root < length h" and "length h \<le> fuel"
  shows "\<exists>nodes. dfs fuel h root = Some nodes"
proof -
  have "dfs_nodes fuel h [root] \<noteq> None"
    using assms(2,3) by (intro dfs_nodes_total[OF assms(1)]) simp
  then show ?thesis by (auto simp: dfs_def)
qed

text \<open>
  Claim C5. On a new hasher every call gets the palette's entry at the number of
  distinct keys seen before the first call for its key, and \<^verbatim>\<open>undefined\<close> when the
  palette has no such entry; once the palette is used up, a call for a key without an
  index returns \<^verbatim>\<open>undefined\<close> and leaves the hasher as it is. \<^verbatim>\<open>updateColors()\<close> throws
  when there is no current root or the walk is too deep; otherwise it makes the calls
  for the keys of the nodes in the order of the walk, on the viewer's hasher, which it
  leaves as the last call does, and it paints every node that has a DOM element once
  for each time the walk meets it: white with black text when the call gave no hue, and
  in the hue with black text when it gave one. In a store in child-first order that is
  no longer than the bound, the walk returns. In the first walk of a viewer, a node
  with a DOM element whose key is first seen when the palette is used up is painted
  white with black text.
\<close>

theorem hues_in_first_seen_order:
  "(\<forall>i<length keys. \<forall>j\<le>i. keys ! j = keys ! i \<and> keys ! i \<notin> set (take j keys) \<longrightarrow>
      fst (callHasherAll (stableHasher palette) keys) ! i =
        (if card (set (take j keys)) < length palette
         then Some (palette ! card (set (take j keys))) else None)) \<and>
   (\<forall>k s. length (items s) \<le> length (assignedItems s) \<and> map_of (assignedItems s) k = None \<longrightarrow>
      callHasher s k = (None, s)) \<and>
   (currentRootNode this = None \<longrightarrow> updateColors fuel hsl hasDom this h = Inl TypeError) \<and>
   (\<forall>root. currentRootNode this = Some root \<and> dfs fuel h root = None \<longrightarrow>
      updateColors fuel hsl hasDom this h = Inl RangeError) \<and>
   (\<forall>root nodes. currentRootNode this = Some root \<and> dfs fuel h root = Some nodes \<longrightarrow>
      updateColors fuel hsl hasDom this h =
        Inr (this\<lparr>getHue := snd (callHasherAll (getHue this) (map (hueKey this h) nodes))\<rparr>,
             map (\<lambda>(node, hue). (node, case hue of None \<Rightarrow> (''white'', ''black'')
                                         | Some hu \<Rightarrow> (hsl hu 60 90, ''black'')))
               (filter (\<lambda>(node, hue). hasDom node)
                  (zip nodes (fst (callHasherAll (getHue this) (map (hueKey this h) nodes))))))) \<and>
   (\<forall>root. currentRootNode this = Some root \<and> childFirst h \<and> root < length h \<and>
      length h \<le> fuel \<longrightarrow>
      (\<exists>nodes this' painted. dfs fuel h root = Some nodes \<and>
         updateColors fuel hsl hasDom this h = Inr (this', painted))) \<and>
   (\<forall>root nodes. currentRootNode this = Some root \<and> dfs fuel h root = Some nodes \<and>
      getHue this = stableHasher palette \<longrightarrow>
      (\<exists>this' painted. updateColors fuel hsl hasDom this h = Inr (this', painted) \<and>
         (\<forall>i<length nodes. \<forall>j\<le>i.
            hueKey this h (nodes ! j) = hueKey this h (nodes ! i) \<and>
            hueKey this h (nodes ! i) \<notin> hueKey this h ` set (take j nodes) \<and>
            length palette \<le> card (hueKey this h ` set (take j nodes)) \<and>
            hasDom (nodes ! i) \<longrightarrow>
            (nodes ! i, ''white'', ''black'') \<in> set painted)))"
proof (intro conjI allI impI)
  fix i j
  assume "i < length keys" "j \<le> i" "keys ! j = keys ! i \<and> keys ! i \<notin> set (take j keys)"
  then show "fst (callHasherAll (stableHasher palette) keys) ! i =
        (if card (set (take j keys)) < length palette
         then Some (palette ! card (set (take j keys))) else None)"
    by (intro seen_hue) simp_all
next
  fix k and s :: "'b hasher"
  assume "length (items s) \<le> length (assignedItems s) \<and> map_of (assignedItems s) k = None"
  then show "callHasher s k = (None, s)" by (simp add: callHasher_def)
next
  assume "currentRootNode this = None"
  then show "updateColors fuel hsl hasDom this h = Inl TypeError"
    by (simp add: updateColors_def)
next
  fix root
  assume "currentRootNode this = Some root \<and> dfs fuel h root = None"
  then show "updateColors fuel hsl hasDom this h = Inl RangeError"
    by (simp add: updateColors_def)
next
  fix root nodes
  assume "currentRootNode this = Some root \<and> dfs fuel h root = Some nodes"
  then have "currentRootNode this = Some root" and "dfs fuel h root = Some nodes" by simp_all
  then show "updateColors fuel hsl hasDom this h =
        Inr (this\<lparr>getHue := snd (callHasherAll (getHue this) (map (hueKey this h) nodes))\<rparr>,
             map (\<lambda>(node, hue). (node, case hue of None \<Rightarrow> (''white'', ''black'')
                                         | Some hu \<Rightarrow> (hsl hu 60 90, ''black'')))
               (filter (\<lambda>(node, hue). hasDom node)
                  (zip nodes (fst (callHasherAll (getHue this) (map (hueKey this h) nodes))))))"
    by (rule updateColors_result)
next
  fix root
  assume a: "currentRootNode this = Some root \<and> childFirst h \<and> root < length h \<and>
      length h \<le> fuel"
  then obtain nodes where d: "dfs fuel h root = Some nodes" using dfs_total by blast
  from a have "currentRootNode this = Some root" by simp
  from updateColors_result[OF this d, of hsl hasDom] d
  show "\<exists>nodes this' painted. dfs fuel h root = Some nodes \<and>
         updateColors fuel hsl hasDom this h = Inr (this', painted)"
    by blast
next
  fix root nodes
  assume a: "currentRootNode this = Some root \<and> dfs fuel h root = Some nodes \<and>
      getHue this = stableHasher palette"
  let ?keys = "map (hueKey this h) nodes"
  let ?hues = "fst (callHasherAll (getHue this) ?keys)"
  let ?painted = "map (\<lambda>(node, hue). (node, case hue of None \<Rightarrow> (''white'', ''black'')
                                         | Some hu \<Rightarrow> (hsl hu 60 90, ''black'')))
               (filter (\<lambda>(node, hue). hasDom node) (zip nodes ?hues))"
  from a have r: "currentRootNode this = Some root" and d: "dfs fuel h root = Some nodes"
    and fresh: "getHue this = stableHasher palette" by simp_all
  have u: "updateColors fuel hsl hasDom this h =
        Inr (this\<lparr>getHue := snd (callHasherAll (getHue this) ?keys)\<rparr>, ?painted)"
    using r d by (rule updateColors_result)
  have len: "length ?hues = length nodes" by (simp add: callHasherAll_length)
  have "(nodes ! i, ''white'', ''black'') \<in> set ?painted"
    if i: "i < length nodes" and j: "j \<le> i" and
      k: "hueKey this h (nodes ! j) = hueKey this h (nodes ! i) \<and>
            hueKey this h (nodes ! i) \<notin> hueKey this h ` set (take j nodes) \<and>
            length palette \<le> card (hueKey this h ` set (take j nodes)) \<and>
            hasDom (nodes ! i)" for i j
  proof -
    have t: "set (take j ?keys) = hueKey this h ` set (take j nodes)"
      by (simp add: take_map)
    have "?hues ! i = (if card (set (take j ?keys)) < length palette
          then Some (palette ! card (set (take j ?keys))) else None)"
      unfolding fresh by (rule seen_hue) (use i j k in \<open>simp_all add: take_map\<close>)
    then have "?hues ! i = None" using k unfolding t by simp
    with painted_nth[OF i _ len, of hasDom hsl] k show ?thesis by simp
  qed
  with u show "\<exists>this' painted. updateColors fuel hsl hasDom this h = Inr (this', painted) \<and>
         (\<forall>i<length nodes. \<forall>j\<le>i.
            hueKey this h (nodes ! j) = hueKey this h (nodes ! i) \<and>
            hueKey this h (nodes ! i) \<notin> hueKey this h ` set (take j nodes) \<and>
            length palette \<le> card (hueKey this h ` set (take j nodes)) \<and>
            hasDom (nodes ! i) \<longrightarrow>
            (nodes ! i, ''white'', ''black'') \<in> set painted)"
    by blast
qed

lemma exampleSortedHeap_childFirst: "childFirst exampleSortedHeap"
  by (auto simp: childFirst_def exampleSortedHeap_def exampleHeap_def nth_Cons' nth_append
      split: option.splits)

lemma example_sorted_walk: "dfs 7 exampleSortedHeap 6 = Some [6, 5, 3, 1, 2, 0, 4]"
  by (simp add: dfs_def exampleSortedHeap_def exampleHeap_def eval_nat_numeral)

lemma example_sorted_keys:
  "map (hueKey (exampleViewer\<lparr>currentRootNode := Some 6\<rparr>) exampleSortedHeap)
     [6, 5, 3, 1, 2, 0, 4] =
   [''https://example.com/'', ''bundle.js'', ''bundle.js'', ''bundle.js'', ''bundle.js'',
    ''a.js'', ''c.js'']"
  by (simp add: hueKey_def exampleViewer_def exampleSortedHeap_def exampleHeap_def)

theorem hues_in_first_seen_order_witness:
  "fst (callHasherAll (stableHasher [0, 120 :: int])
          [''a.js'', ''bundle.js'', ''a.js'', ''c.js'', ''c.js'']) ! 2 = Some 0 \<and>
   fst (callHasherAll (stableHasher [0, 120 :: int])
          [''a.js'', ''bundle.js'', ''a.js'', ''c.js'', ''c.js'']) ! 4 = None \<and>
   callHasher \<lparr>items = [0, 120 :: int], assignedItems = [(''bundle.js'', 1), (''a.js'', 0)]\<rparr>
       ''c.js'' =
     (None, \<lparr>items = [0, 120 :: int], assignedItems = [(''bundle.js'', 1), (''a.js'', 0)]\<rparr>) \<and>
   updateColors 7 exampleHsl (\<lambda>node. node \<noteq> 3) exampleViewer exampleSortedHeap =
     Inl TypeError \<and>
   updateColors 2 exampleHsl (\<lambda>node. node \<noteq> 3) (exampleViewer\<lparr>currentRootNode := Some 6\<rparr>)
       exampleSortedHeap =
     Inl RangeError \<and>
   childFirst exampleSortedHeap \<and> length exampleSortedHeap = 7 \<and>
   dfs 7 exampleSortedHeap 6 = Some [6, 5, 3, 1, 2, 0, 4] \<and>
   updateColors 7 exampleHsl (\<lambda>node. node \<noteq> 3) (exampleViewer\<lparr>currentRootNode := Some 6\<rparr>)
       exampleSortedHeap =
     Inr (exampleViewer
            \<lparr>currentRootNode := Some 6,
             getHue := \<lparr>items = [0, 120],
                        assignedItems = [(''bundle.js'', 1), (''https://example.com/'', 0)]\<rparr>\<rparr>,
          [(6, ''hsl(0, 60%, 90%)'', ''black''),
           (5, ''hsl(120, 60%, 90%)'', ''black''),
           (1, ''hsl(120, 60%, 90%)'', ''black''),
           (2, ''hsl(120, 60%, 90%)'', ''black''),
           (0, ''white'', ''black''),
           (4, ''white'', ''black'')]) \<and>
   (\<exists>this' painted.
      updateColors 7 exampleHsl (\<lambda>node. node \<noteq> 3) (exampleViewer\<lparr>currentRootNode := Some 6\<rparr>)
        exampleSortedHeap = Inr (this', painted) \<and>
      (0, ''white'', ''black'') \<in> set painted \<and> (4, ''white'', ''black'') \<in> set painted)"
proof -
  let ?keys = "[''a.js'', ''bundle.js'', ''a.js'', ''c.js'', ''c.js'']"
  let ?V = "exampleViewer\<lparr>currentRootNode := Some 6\<rparr>"
  let ?dom = "\<lambda>node. node \<noteq> (3::nat)"
  let ?nodes = "[6, 5, 3, 1, 2, 0, 4 :: nat]"
  note inst = hues_in_first_seen_order [where keys = ?keys and palette = "[0, 120]"
      and this = ?V and h = exampleSortedHeap and fuel = 7 and hasDom = ?dom
      and hsl = exampleHsl]
  note inst0 = hues_in_first_seen_order [where keys = ?keys and palette = "[0, 120]"
      and this = exampleViewer and h = exampleSortedHeap and fuel = 7 and hasDom = ?dom
      and hsl = exampleHsl]
  note inst2 = hues_in_first_seen_order [where keys = ?keys and palette = "[0, 120]"
      and this = ?V and h = exampleSortedHeap and fuel = 2 and hasDom = ?dom
      and hsl = exampleHsl]
  note c1 = inst [THEN conjunct1]
  note c2 = inst [THEN conjunct2, THEN conjunct1]
  note c3 = inst0 [THEN conjunct2, THEN conjunct2, THEN conjunct1]
  note c4 = inst2 [THEN conjunct2, THEN conjunct2, THEN conjunct2, THEN conjunct1]
  note c5 = inst [THEN conjunct2, THEN conjunct2, THEN conjunct2, THEN conjunct2, THEN conjunct1]
  note c6 = inst [THEN conjunct2, THEN conjunct2, THEN conjunct2, THEN conjunct2, THEN conjunct2,
      THEN conjunct1]
  note c7 = inst [THEN conjunct2, THEN conjunct2, THEN conjunct2, THEN conjunct2, THEN conjunct2,
      THEN conjunct2]
  from c1 [rule_format, of 2 0]
  have 1: "fst (callHasherAll (stableHasher [0, 120 :: int]) ?keys) ! 2 = Some 0"
    by simp
  have "set (take 3 ?keys) = {''a.js'', ''bundle.js''}" by (auto simp: eval_nat_numeral)
  then have "card (set (take 3 ?keys)) = 2" by simp
  with c1 [rule_format, of 4 3]
  have 2: "fst (callHasherAll (stableHasher [0, 120 :: int]) ?keys) ! 4 = None"
    by (simp add: eval_nat_numeral)
  from c2 [rule_format, of "\<lparr>items = [0, 120 :: int],
      assignedItems = [(''bundle.js'', 1), (''a.js'', 0)]\<rparr>" "''c.js''"]
  have 3: "callHasher \<lparr>items = [0, 120 :: int],
        assignedItems = [(''bundle.js'', 1), (''a.js'', 0)]\<rparr> ''c.js'' =
     (None, \<lparr>items = [0, 120 :: int], assignedItems = [(''bundle.js'', 1), (''a.js'', 0)]\<rparr>)"
    by simp
  have "currentRootNode exampleViewer = None" by (simp add: exampleViewer_def)
  with c3 have 4: "updateColors 7 exampleHsl ?dom exampleViewer exampleSortedHeap = Inl TypeError"
    by simp
  have cur: "currentRootNode ?V = Some 6" by simp
  have "dfs 2 exampleSortedHeap 6 = None"
    by (simp add: dfs_def exampleSortedHeap_def exampleHeap_def eval_nat_numeral)
  with c4 [rule_format, of 6] cur
  have 5: "updateColors 2 exampleHsl ?dom ?V exampleSortedHeap = Inl RangeError"
    by simp
  have len: "length exampleSortedHeap = 7" by (simp add: exampleSortedHeap_def exampleHeap_def)
  have fresh: "getHue ?V = stableHasher [0, 120]" by (simp add: exampleViewer_def)
  from c6 [rule_format, of 6] cur exampleSortedHeap_childFirst len
  obtain nodes this' painted where
    "dfs 7 exampleSortedHeap 6 = Some nodes"
    "updateColors 7 exampleHsl ?dom ?V exampleSortedHeap = Inr (this', painted)"
    by auto
  with example_sorted_walk have walk: "dfs 7 exampleSortedHeap 6 = Some ?nodes" by simp
  have hues: "callHasherAll (stableHasher [0, 120 :: int])
                [''https://example.com/'', ''bundle.js'', ''bundle.js'', ''bundle.js'',
                 ''bundle.js'', ''a.js'', ''c.js''] =
              ([Some 0, Some 120, Some 120, Some 120, Some 120, None, None],
               \<lparr>items = [0, 120],
                assignedItems = [(''bundle.js'', 1), (''https://example.com/'', 0)]\<rparr>)"
    by (simp add: stableHasher_def callHasher_def)
  from c5 [rule_format, of 6 ?nodes] cur walk
  have 6: "updateColors 7 exampleHsl ?dom ?V exampleSortedHeap =
     Inr (exampleViewer
            \<lparr>currentRootNode := Some 6,
             getHue := \<lparr>items = [0, 120],
                        assignedItems = [(''bundle.js'', 1), (''https://example.com/'', 0)]\<rparr>\<rparr>,
          [(6, ''hsl(0, 60%, 90%)'', ''black''),
           (5, ''hsl(120, 60%, 90%)'', ''black''),
           (1, ''hsl(120, 60%, 90%)'', ''black''),
           (2, ''hsl(120, 60%, 90%)'', ''black''),
           (0, ''white'', ''black''),
           (4, ''white'', ''black'')])"
    unfolding example_sorted_keys fresh hues by (simp add: exampleHsl_def)
  from c7 [rule_format, of 6 ?nodes] cur walk fresh
  obtain this' painted where
    u: "updateColors 7 exampleHsl ?dom ?V exampleSortedHeap = Inr (this', painted)" and
    w: "\<forall>i<length ?nodes. \<forall>j\<le>i.
            hueKey ?V exampleSortedHeap (?nodes ! j) = hueKey ?V exampleSortedHeap (?nodes ! i) \<and>
            hueKey ?V exampleSortedHeap (?nodes ! i) \<notin>
              hueKey ?V exampleSortedHeap ` set (take j ?nodes) \<and>
            length [0, 120 :: int] \<le> card (hueKey ?V exampleSortedHeap ` set (take j ?nodes)) \<and>
            ?dom (?nodes ! i) \<longrightarrow>
            (?nodes ! i, ''white'', ''black'') \<in> set painted"
    by blast
  have k5: "hueKey ?V exampleSortedHeap ` set (take 5 ?nodes) =
            {''https://example.com/'', ''bundle.js''}"
    using arg_cong[OF example_sorted_keys, of "\<lambda>ks. set (take 5 ks)"]
    by (simp add: take_map [symmetric] eval_nat_numeral)
  have k6: "hueKey ?V exampleSortedHeap ` set (take 6 ?nodes) =
            {''https://example.com/'', ''bundle.js'', ''a.js''}"
    using arg_cong[OF example_sorted_keys, of "\<lambda>ks. set (take 6 ks)"]
    by (simp add: take_map [symmetric] eval_nat_numeral insert_commute)
  have a0: "hueKey ?V exampleSortedHeap 0 = ''a.js''" and a4: "hueKey ?V exampleSortedHeap 4 = ''c.js''"
    by (simp_all add: hueKey_def exampleViewer_def)
  have c5': "card {''https://example.com/'', ''bundle.js''} = 2" by simp
  have c6': "card {''https://example.com/'', ''bundle.js'', ''a.js''} = 3" by simp
  from w [rule_format, of 5 5] have 7: "(0, ''white'', ''black'') \<in> set painted"
    unfolding k5 c5' by (simp add: a0)
  from w [rule_format, of 6 6] have 8: "(4, ''white'', ''black'') \<in> set painted"
    unfolding k6 c6' by (simp add: a4)
  from 1 2 3 4 5 exampleSortedHeap_childFirst len walk 6 u 7 8 show ?thesis by blast
qed

section \<open>Properties of renderViewModeOptions\<close>















section \<open>Properties of the hue keys\<close>







lemma hueKey_update [simp]:
  "hueKey (this\<lparr>currentRootNode := r, getHue := s\<rparr>) h a = hueKey this h a"
  by (simp add: hueKey_def)













end
